theory Spec2Isabelle
  imports Complex_Main "HOL-Library.Word" "HOL-Library.Multiset"
begin

section \<open>Data model of utils.go\<close>

text \<open>
  The Go utilities \<^verbatim>\<open>MultipartUpload\<close> and \<^verbatim>\<open>ConcurrentMultipartUpload\<close> talk to the
  object store through three SDK operations and read the file through \<^verbatim>\<open>os.File\<close>.
  The SDK client, the file system and the memory are the environment of the model: the
  client is a record of three functions, a file is the bytes that are still unread, and
  \<open>maxAlloc\<close> is the longest byte slice that \<^verbatim>\<open>make\<close> hands out in the run.  A Go pointer
  \<^verbatim>\<open>*string\<close> is a \<open>string option\<close> (\<open>None\<close> is nil).  The \<^verbatim>\<open>int64\<close> and
  \<^verbatim>\<open>int\<close> values are integers: they are compared with constants, and the part number,
  the only one that is computed, counts parts of one byte or more of a file of fewer
  than \<open>2^63\<close> bytes.
\<close>

type_synonym byte = "8 word"
type_synonym etag = "string option"
type_synonym upload_id = "string option"
type_synonym sdk_error = string
type_synonym complete_output = string

text \<open>
  The errors the two functions return, one constructor for each \<^verbatim>\<open>fmt.Errorf\<close> of
  utils.go; \<open>CompleteError\<close> is the error of \<^verbatim>\<open>svc.CompleteMultipartUpload\<close>, which
  is returned as it is.
\<close>

datatype error =
    MaxConcurrencyError
  | OpenError string
  | InitiateError sdk_error
  | ReadError
  | UploadPartError int sdk_error
  | PartResultError int error
  | CompleteError sdk_error

text \<open>The local struct \<^verbatim>\<open>PartResult\<close> of ConcurrentMultipartUpload.\<close>

record PartResult =
  PartNumber :: int
  ETag :: etag
  Err :: "error option"

text \<open>\<^verbatim>\<open>s3.CompletedPart\<close>: one entry of the completion request.\<close>

record CompletedPart =
  ETag :: etag
  PartNumber :: int

text \<open>
  The client \<^verbatim>\<open>svc\<close>.  Every operation takes bucket and key first; \<open>UploadPart\<close>
  then takes the upload id, the part number and the body (\<^verbatim>\<open>ContentLength\<close> is the
  length of the body), \<open>CompleteMultipartUpload\<close> the upload id and the parts.
\<close>

record S3 =
  CreateMultipartUpload :: "string \<Rightarrow> string \<Rightarrow> sdk_error + upload_id"
  UploadPart :: "string \<Rightarrow> string \<Rightarrow> upload_id \<Rightarrow> int \<Rightarrow> byte list \<Rightarrow> sdk_error + etag"
  CompleteMultipartUpload ::
    "string \<Rightarrow> string \<Rightarrow> upload_id \<Rightarrow> CompletedPart list \<Rightarrow> sdk_error + complete_output"

text \<open>
  What the function's own goroutine does to the store, in program order.  The sequential
  upload calls \<^verbatim>\<open>svc.UploadPart\<close> itself (\<open>UploadPartCall\<close>); the concurrent upload
  starts one goroutine per part (\<open>UploadPartTask\<close>), and \<^verbatim>\<open>svc.UploadPart\<close> is called
  nowhere but in the body of such a goroutine.
\<close>

datatype event =
    CreateCall string string
  | UploadPartCall upload_id int "byte list"
  | UploadPartTask upload_id int "byte list"
  | CompleteCall upload_id "CompletedPart list"

text \<open>
  How a call of the Go function ends: it returns a value, returns an error, is ended by
  the runtime in \<^verbatim>\<open>make\<close>, or blocks for ever on a channel.

  \<^verbatim>\<open>make(chan T, n)\<close> panics on a negative \<^verbatim>\<open>n\<close> (\<open>MakeChanSize\<close>).
  \<^verbatim>\<open>make([]byte, n)\<close> returns a slice for \<open>0 \<le> n \<le> maxAlloc\<close> and ends the program
  otherwise (\<open>MakeSliceLen\<close>): \<^verbatim>\<open>makeslice\<close> panics with \<^verbatim>\<open>len out of range\<close> on a
  negative length and on a length beyond the limit of the runtime (\<^verbatim>\<open>maxAlloc\<close> in
  package \<^verbatim>\<open>runtime\<close>, \<^verbatim>\<open>1 << 48\<close> on 64-bit Linux), and below that limit the
  runtime stops with \<^verbatim>\<open>out of memory\<close> when the machine cannot provide the bytes.
  \<open>maxAlloc\<close> is the bound of the run, whichever applies; \<open>runtime_maxAlloc\<close> is the
  limit of the runtime, the bound on a machine with memory to spare.
\<close>

datatype go_panic = MakeChanSize | MakeSliceLen

datatype outcome = Ok complete_output | Failed error | Panic go_panic | Deadlock

definition runtime_maxAlloc :: nat where
  "runtime_maxAlloc = 2 ^ 48"

subsection \<open>The open file\<close>

text \<open>
  An open file: the bytes from the cursor to the end; \<open>faults\<close>, the number of
  \<^verbatim>\<open>Read\<close> calls that still succeed before one fails with an error other than
  \<^verbatim>\<open>io.EOF\<close> (\<open>None\<close>: no call fails); and \<open>max_read\<close>, the most bytes that one
  call hands out.

  \<^verbatim>\<open>fd.Read(buffer)\<close> reads up to \<^verbatim>\<open>len(buffer)\<close> bytes.  On a regular file it fills
  the buffer unless the file ends first or the buffer is larger than what one read of
  the operating system transfers: an \<^verbatim>\<open>os.File\<close> cuts the buffer it passes to one read
  at \<^verbatim>\<open>1 << 30\<close> bytes (\<^verbatim>\<open>maxRW\<close> in \<^verbatim>\<open>internal/poll\<close>), and the \<^verbatim>\<open>read\<close> of
  Linux transfers at most \<^verbatim>\<open>0x7ffff000\<close> bytes.  utils.go calls \<^verbatim>\<open>Read\<close> once per
  part and does not repeat it until the buffer is full.

  With an empty buffer \<^verbatim>\<open>Read\<close> returns \<^verbatim>\<open>0, nil\<close> without touching the file, at
  the end of the file \<^verbatim>\<open>0, io.EOF\<close>.  The loops of utils.go treat both as
  \<^verbatim>\<open>bytesRead == 0\<close>, so \<open>Read\<close> returns the bytes read (\<^verbatim>\<open>buffer[:bytesRead]\<close>)
  and the file after the call.
\<close>

record File =
  unread :: "byte list"
  faults :: "nat option"
  max_read :: nat

datatype read_result = ReadOk "byte list" File | ReadErr

definition Read :: "File \<Rightarrow> nat \<Rightarrow> read_result" where
  "Read fd n =
     (if n = 0 then ReadOk [] fd
      else if faults fd = Some 0 then ReadErr
      else
        (let bytesRead = min n (max_read fd)
         in ReadOk (take bytesRead (unread fd))
              (fd\<lparr>unread := drop bytesRead (unread fd),
                  faults := map_option (\<lambda>j. j - 1) (faults fd)\<rparr>)))"

section \<open>MultipartUpload\<close>

text \<open>
  The loop of \<^verbatim>\<open>MultipartUpload\<close> (utils.go, the \<^verbatim>\<open>for\<close> after
  \<^verbatim>\<open>partNumber := int64(1)\<close>): read, stop at zero bytes, upload, append, count.  It
  returns the completed parts or the error of the early return, and the calls made.
\<close>

function upload_loop ::
  "S3 \<Rightarrow> string \<Rightarrow> string \<Rightarrow> upload_id \<Rightarrow> nat \<Rightarrow> File \<Rightarrow> int \<Rightarrow> CompletedPart list \<Rightarrow>
   event list \<Rightarrow> (error + CompletedPart list) \<times> event list" where
  "upload_loop svc bucket key uid n fd partNumber completedParts calls =
     (case Read fd n of
        ReadErr \<Rightarrow> (Inl ReadError, calls)
      | ReadOk buffer fd' \<Rightarrow>
          if length buffer = 0 then (Inr completedParts, calls)
          else
            (case UploadPart svc bucket key uid partNumber buffer of
               Inl err \<Rightarrow>
                 (Inl (UploadPartError partNumber err),
                  calls @ [UploadPartCall uid partNumber buffer])
             | Inr tag \<Rightarrow>
                 upload_loop svc bucket key uid n fd' (partNumber + 1)
                   (completedParts @ [\<lparr>ETag = tag, PartNumber = partNumber\<rparr>])
                   (calls @ [UploadPartCall uid partNumber buffer])))"
  by pat_completeness auto
termination
proof (relation "measure (\<lambda>(svc, bucket, key, uid, n, fd, rest). length (unread fd))")
  show "wf (measure (\<lambda>(svc, bucket, key, uid, n, fd, rest). length (unread fd)))"
    by simp
next
  fix svc :: S3 and bucket key :: string and uid :: upload_id and n :: nat and fd :: File
    and partNumber :: int and completedParts :: "CompletedPart list" and calls :: "event list"
    and buffer :: "byte list" and fd' :: File and tag :: etag
  assume r: "Read fd n = ReadOk buffer fd'" and nz: "length buffer \<noteq> 0"
  from r nz have "min n (max_read fd) \<noteq> 0"
    by (auto simp: Read_def Let_def split: if_splits)
  moreover from r nz have "unread fd \<noteq> []"
    and "unread fd' = drop (min n (max_read fd)) (unread fd)"
    by (auto simp: Read_def Let_def split: if_splits)
  ultimately have "length (unread fd') < length (unread fd)"
    by (cases "unread fd") auto
  then show "((svc, bucket, key, uid, n, fd', partNumber + 1,
                completedParts @ [\<lparr>ETag = tag, PartNumber = partNumber\<rparr>],
                calls @ [UploadPartCall uid partNumber buffer]),
               (svc, bucket, key, uid, n, fd, partNumber, completedParts, calls))
             \<in> measure (\<lambda>(svc, bucket, key, uid, n, fd, rest). length (unread fd))"
    by simp
qed

declare upload_loop.simps [simp del]

text \<open>
  \<^verbatim>\<open>MultipartUpload(svc, bucket, key, filePath, partSize)\<close>.  \<open>fs\<close> is the file system:
  \<^verbatim>\<open>os.Open\<close> fails on a path it does not map.  The buffer is allocated once, after
  the session is created and before the loop; \<^verbatim>\<open>make([]byte, partSize)\<close> ends the
  program on a negative size and on a size beyond \<open>maxAlloc\<close>.
\<close>

definition MultipartUpload ::
  "S3 \<Rightarrow> (string \<Rightarrow> File option) \<Rightarrow> nat \<Rightarrow> string \<Rightarrow> string \<Rightarrow> string \<Rightarrow> int \<Rightarrow>
   outcome \<times> event list" where
  "MultipartUpload svc fs maxAlloc bucket key filePath partSize =
     (case fs filePath of
        None \<Rightarrow> (Failed (OpenError filePath), [])
      | Some fd \<Rightarrow>
          (case CreateMultipartUpload svc bucket key of
             Inl err \<Rightarrow> (Failed (InitiateError err), [CreateCall bucket key])
           | Inr uid \<Rightarrow>
               if partSize < 0 \<or> int maxAlloc < partSize
               then (Panic MakeSliceLen, [CreateCall bucket key])
               else
                 (case upload_loop svc bucket key uid (nat partSize) fd 1 []
                         [CreateCall bucket key] of
                    (Inl e, calls) \<Rightarrow> (Failed e, calls)
                  | (Inr completedParts, calls) \<Rightarrow>
                      (case CompleteMultipartUpload svc bucket key uid completedParts of
                         Inl err \<Rightarrow> Failed (CompleteError err)
                       | Inr out \<Rightarrow> Ok out,
                       calls @ [CompleteCall uid completedParts]))))"

section \<open>ConcurrentMultipartUpload\<close>

text \<open>
  The first loop of \<^verbatim>\<open>ConcurrentMultipartUpload\<close>: allocate a buffer
  (\<^verbatim>\<open>make([]byte, partSize)\<close>, which ends the program on a negative size and on a
  size beyond \<open>maxAlloc\<close>), read, stop at zero bytes, start a goroutine for the part,
  count.  A task is the pair of arguments the
  goroutine is started with, \<^verbatim>\<open>partNumber\<close> and \<^verbatim>\<open>buffer[:bytesRead]\<close>.  The loop
  never waits for a goroutine: the semaphore is acquired inside the goroutine.
\<close>

type_synonym task = "int \<times> byte list"

datatype launch_result = Launched "task list" | ReadFailed "task list" | SlicePanic "task list"

function launch_loop :: "nat \<Rightarrow> int \<Rightarrow> File \<Rightarrow> int \<Rightarrow> task list \<Rightarrow> launch_result" where
  "launch_loop maxAlloc partSize fd partNumber tasks =
     (if partSize < 0 \<or> int maxAlloc < partSize then SlicePanic tasks
      else
        (case Read fd (nat partSize) of
           ReadErr \<Rightarrow> ReadFailed tasks
         | ReadOk buffer fd' \<Rightarrow>
             if length buffer = 0 then Launched tasks
             else launch_loop maxAlloc partSize fd' (partNumber + 1) (tasks @ [(partNumber, buffer)])))"
  by pat_completeness auto
termination
proof (relation "measure (\<lambda>(maxAlloc, partSize, fd, rest). length (unread fd))")
  show "wf (measure (\<lambda>(maxAlloc, partSize, fd, rest). length (unread fd)))"
    by simp
next
  fix maxAlloc :: nat and partSize :: int and fd :: File and partNumber :: int
    and tasks :: "task list" and buffer :: "byte list" and fd' :: File
  assume r: "Read fd (nat partSize) = ReadOk buffer fd'" and nz: "length buffer \<noteq> 0"
  from r nz have "min (nat partSize) (max_read fd) \<noteq> 0"
    by (auto simp: Read_def Let_def split: if_splits)
  moreover from r nz have "unread fd \<noteq> []"
    and "unread fd' = drop (min (nat partSize) (max_read fd)) (unread fd)"
    by (auto simp: Read_def Let_def split: if_splits)
  ultimately have "length (unread fd') < length (unread fd)"
    by (cases "unread fd") auto
  then show "((maxAlloc, partSize, fd', partNumber + 1, tasks @ [(partNumber, buffer)]),
               (maxAlloc, partSize, fd, partNumber, tasks))
             \<in> measure (\<lambda>(maxAlloc, partSize, fd, rest). length (unread fd))"
    by simp
qed

declare launch_loop.simps [simp del]

text \<open>
  The body of the goroutine after it holds a semaphore slot: call \<^verbatim>\<open>svc.UploadPart\<close>
  and build the \<^verbatim>\<open>PartResult\<close> that is sent on \<^verbatim>\<open>partCh\<close>.
\<close>

definition upload_task :: "S3 \<Rightarrow> string \<Rightarrow> string \<Rightarrow> upload_id \<Rightarrow> task \<Rightarrow> PartResult" where
  "upload_task svc bucket key uid t =
     (case UploadPart svc bucket key uid (fst t) (snd t) of
        Inl err \<Rightarrow>
          \<lparr>PartResult.PartNumber = fst t, ETag = None,
           Err = Some (UploadPartError (fst t) err)\<rparr>
      | Inr tag \<Rightarrow> \<lparr>PartResult.PartNumber = fst t, ETag = tag, Err = None\<rparr>)"

text \<open>
  The order in which the results arrive on \<^verbatim>\<open>partCh\<close> is up to the scheduler and the
  network.  A schedule is a list of choices: each choice picks, among the results not
  yet received, the one that arrives next (modulo their number); when the choices run
  out the results arrive in the order the goroutines were started.  Every permutation
  of the results is the arrival of some schedule (\<open>arrival_any_order\<close> below).
\<close>

function arrival :: "nat list \<Rightarrow> 'a list \<Rightarrow> 'a list" where
  "arrival sched [] = []"
| "arrival [] (x # xs) = x # xs"
| "arrival (c # sched) (x # xs) =
     (let i = c mod length (x # xs)
      in (x # xs) ! i # arrival sched (take i (x # xs) @ drop (Suc i) (x # xs)))"
  by pat_completeness auto
termination
  by (relation "measure (\<lambda>(sched, xs). length xs)") auto

text \<open>
  The second loop, \<^verbatim>\<open>for partResult := range partCh\<close>: return at the first result that
  carries an error, append a completed part otherwise.
\<close>

fun collect :: "PartResult list \<Rightarrow> CompletedPart list \<Rightarrow> error + CompletedPart list" where
  "collect [] completedParts = Inr completedParts"
| "collect (partResult # rest) completedParts =
     (case Err partResult of
        Some e \<Rightarrow> Inl (PartResultError (PartResult.PartNumber partResult) e)
      | None \<Rightarrow>
          collect rest
            (completedParts @
             [\<lparr>ETag = PartResult.ETag partResult,
               PartNumber = PartResult.PartNumber partResult\<rparr>]))"

text \<open>
  \<^verbatim>\<open>ConcurrentMultipartUpload(svc, bucket, key, filePath, partSize, maxConcurrency)\<close>,
  with the file system \<open>fs\<close>, the schedule \<open>sched\<close> and the allocation bound
  \<open>maxAlloc\<close> of the run.
  \<^item> \<^verbatim>\<open>make(chan PartResult, maxConcurrency)\<close> panics on a negative size.
  \<^item> With \<^verbatim>\<open>maxConcurrency = 0\<close> the semaphore is an unbuffered channel that nobody
    receives from before sending to it: every goroutine blocks at
    \<^verbatim>\<open>semaphore <- struct{}{}\<close>, \<^verbatim>\<open>partCh\<close> is never closed and the \<^verbatim>\<open>range\<close> loop
    blocks.  With no goroutine at all, \<^verbatim>\<open>wg.Wait\<close> returns at once.
  \<^item> \<^verbatim>\<open>sort.Slice\<close> orders the parts by \<^verbatim>\<open>PartNumber\<close>; it is \<open>sort_key\<close> here.
    \<^verbatim>\<open>sort.Slice\<close> is not stable, but the part numbers are distinct, and then every
    sorted permutation of the parts is the same list (\<open>sort_parts\<close> below).
\<close>

definition ConcurrentMultipartUpload ::
  "S3 \<Rightarrow> (string \<Rightarrow> File option) \<Rightarrow> nat list \<Rightarrow> nat \<Rightarrow> string \<Rightarrow> string \<Rightarrow> string \<Rightarrow> int \<Rightarrow>
   int \<Rightarrow> outcome \<times> event list" where
  "ConcurrentMultipartUpload svc fs sched maxAlloc bucket key filePath partSize maxConcurrency =
     (if maxConcurrency > 8 then (Failed MaxConcurrencyError, [])
      else
        (case fs filePath of
           None \<Rightarrow> (Failed (OpenError filePath), [])
         | Some fd \<Rightarrow>
             (case CreateMultipartUpload svc bucket key of
                Inl err \<Rightarrow> (Failed (InitiateError err), [CreateCall bucket key])
              | Inr uid \<Rightarrow>
                  if maxConcurrency < 0 then (Panic MakeChanSize, [CreateCall bucket key])
                  else
                    (case launch_loop maxAlloc partSize fd 1 [] of
                       SlicePanic tasks \<Rightarrow>
                         (Panic MakeSliceLen,
                          CreateCall bucket key # map (\<lambda>t. UploadPartTask uid (fst t) (snd t)) tasks)
                     | ReadFailed tasks \<Rightarrow>
                         (Failed ReadError,
                          CreateCall bucket key # map (\<lambda>t. UploadPartTask uid (fst t) (snd t)) tasks)
                     | Launched tasks \<Rightarrow>
                         (let calls = CreateCall bucket key #
                                    map (\<lambda>t. UploadPartTask uid (fst t) (snd t)) tasks
                          in if maxConcurrency = 0 \<and> tasks \<noteq> [] then (Deadlock, calls)
                             else
                               (case collect
                                       (arrival sched (map (upload_task svc bucket key uid) tasks))
                                       [] of
                                  Inl e \<Rightarrow> (Failed e, calls)
                                | Inr completedParts \<Rightarrow>
                                    (let sortedParts = sort_key PartNumber completedParts
                                     in (case CompleteMultipartUpload svc bucket key uid
                                                sortedParts of
                                           Inl err \<Rightarrow> Failed (CompleteError err)
                                         | Inr out \<Rightarrow> Ok out,
                                         calls @ [CompleteCall uid sortedParts]))))))))"

subsection \<open>The goroutines and the semaphore\<close>

text \<open>
  The goroutine started for a part runs
  \<^verbatim>\<open>semaphore <- struct{}{}\<close>, \<^verbatim>\<open>svc.UploadPart(...)\<close>, \<^verbatim>\<open>partCh <- PartResult{...}\<close>
  and, deferred, \<^verbatim>\<open><-semaphore\<close>.  Its program counter says which of these it is at.
  Both channels are made with capacity \<^verbatim>\<open>maxConcurrency\<close>; the state of the pool keeps
  the number of values each of them holds.  A send on a full channel blocks, and so does
  a send on a channel of capacity 0 that no goroutine receives from: a blocked action
  leaves the state as it is.  \<open>Receive\<close> is the \<^verbatim>\<open>range partCh\<close> loop taking a result.
\<close>

datatype pc = AtAcquire | InUploadPart | AtSend | AtRelease | Exited

record pool =
  goroutines :: "pc list"
  semaphore :: nat
  partCh :: nat

datatype action = Acquire nat | Return nat | Send nat | Release nat | Receive

fun step :: "int \<Rightarrow> pool \<Rightarrow> action \<Rightarrow> pool" where
  "step maxConcurrency s (Acquire i) =
     (if i < length (goroutines s) \<and> goroutines s ! i = AtAcquire \<and>
         int (semaphore s) < maxConcurrency
      then s\<lparr>goroutines := (goroutines s)[i := InUploadPart], semaphore := semaphore s + 1\<rparr>
      else s)"
| "step maxConcurrency s (Return i) =
     (if i < length (goroutines s) \<and> goroutines s ! i = InUploadPart
      then s\<lparr>goroutines := (goroutines s)[i := AtSend]\<rparr>
      else s)"
| "step maxConcurrency s (Send i) =
     (if i < length (goroutines s) \<and> goroutines s ! i = AtSend \<and>
         int (partCh s) < maxConcurrency
      then s\<lparr>goroutines := (goroutines s)[i := AtRelease], partCh := partCh s + 1\<rparr>
      else s)"
| "step maxConcurrency s (Release i) =
     (if i < length (goroutines s) \<and> goroutines s ! i = AtRelease \<and> 0 < semaphore s
      then s\<lparr>goroutines := (goroutines s)[i := Exited], semaphore := semaphore s - 1\<rparr>
      else s)"
| "step maxConcurrency s Receive =
     (if 0 < partCh s then s\<lparr>partCh := partCh s - 1\<rparr> else s)"

text \<open>The pool after the first loop has started \<open>n\<close> goroutines, and a run of it.\<close>

definition started :: "nat \<Rightarrow> pool" where
  "started n = \<lparr>goroutines = replicate n AtAcquire, semaphore = 0, partCh = 0\<rparr>"

definition run_pool :: "int \<Rightarrow> nat \<Rightarrow> action list \<Rightarrow> pool" where
  "run_pool maxConcurrency n acts = foldl (step maxConcurrency) (started n) acts"

text \<open>The part uploads in flight, and the goroutines that hold a semaphore slot.\<close>

definition in_flight :: "pool \<Rightarrow> nat" where
  "in_flight s = length (filter (\<lambda>p. p = InUploadPart) (goroutines s))"

definition holds_slot :: "pc \<Rightarrow> bool" where
  "holds_slot p = (p = InUploadPart \<or> p = AtSend \<or> p = AtRelease)"

definition holding :: "pool \<Rightarrow> nat" where
  "holding s = length (filter holds_slot (goroutines s))"

definition pool_inv :: "int \<Rightarrow> pool \<Rightarrow> bool" where
  "pool_inv maxConcurrency s =
     (holding s = semaphore s \<and> int (semaphore s) \<le> max 0 maxConcurrency)"

section \<open>The part loop of Utils.java\<close>

text \<open>
  \<^verbatim>\<open>Utils.ConcurrentMultipartUpload\<close> (and \<^verbatim>\<open>Utils.MultipartUpload\<close>, with the same
  loop) does not read the file to cut it: it computes, for every part, the part number
  \<^verbatim>\<open>i\<close> (an \<^verbatim>\<open>int\<close>), the offset \<^verbatim>\<open>filePosition\<close> and the size
  \<^verbatim>\<open>Math.min(partSize, contentLength - filePosition)\<close> (both \<^verbatim>\<open>long\<close>), and submits a
  task with these three.  The \<^verbatim>\<open>long\<close> values are integers here: with a positive part
  size \<^verbatim>\<open>filePosition\<close> stays between 0 and \<^verbatim>\<open>contentLength\<close>, so nothing overflows.
  The part number is a 32-bit word, as \<^verbatim>\<open>i++\<close> wraps around.  Nothing in the code makes
  the loop end when \<^verbatim>\<open>partSize <= 0\<close>, so the model is a partial function: \<open>None\<close>
  is a loop that does not end (\<open>java_part_loop_never_ends\<close> below).
\<close>

type_synonym java_part = "32 word \<times> int \<times> int"

partial_function (option) java_part_loop ::
  "int \<Rightarrow> int \<Rightarrow> 32 word \<Rightarrow> int \<Rightarrow> java_part list \<Rightarrow> java_part list option" where
  "java_part_loop partSize contentLength i filePosition submitted =
     (if filePosition < contentLength then
        (let currentPartSize = min partSize (contentLength - filePosition)
         in java_part_loop partSize contentLength (i + 1) (filePosition + currentPartSize)
              (submitted @ [(i, filePosition, currentPartSize)]))
      else Some submitted)"

declare java_part_loop.simps [code]

section \<open>Auxiliary definitions\<close>

text \<open>
  \<open>slices k n xs\<close> cuts \<open>xs\<close> into consecutive pieces of \<open>n\<close> elements (the last one
  may be shorter) and numbers them from \<open>k\<close>; \<open>completed\<close> is the completed part built
  from a part result.
\<close>

definition slices :: "int \<Rightarrow> nat \<Rightarrow> 'a list \<Rightarrow> (int \<times> 'a list) list" where
  "slices k n xs =
     map (\<lambda>i. (k + int i, take n (drop (i * n) xs))) [0..<(length xs + n - 1) div n]"

definition completed :: "PartResult \<Rightarrow> CompletedPart" where
  "completed r = \<lparr>ETag = PartResult.ETag r, PartNumber = PartResult.PartNumber r\<rparr>"

text \<open>
  The parts of the Java loop in closed form, from part number \<open>i\<close> and offset \<open>pos\<close> on.
\<close>

definition java_parts :: "32 word \<Rightarrow> int \<Rightarrow> int \<Rightarrow> int \<Rightarrow> java_part list" where
  "java_parts i pos partSize contentLength =
     map (\<lambda>k. (i + of_nat k, pos + int k * partSize,
               min partSize (contentLength - (pos + int k * partSize))))
       [0..<(nat (contentLength - pos) + nat partSize - 1) div nat partSize]"

text \<open>
  A small environment to run the model on.  \<open>os_file\<close> is a file read without faults
  and with the limit of an \<^verbatim>\<open>os.File\<close>; the file system has a file of five bytes and
  an empty file.  The store fails \<open>UploadPart\<close> for the part number \<open>bad\<close> alone (no
  part has the number 0), and its \<open>CompleteMultipartUpload\<close> answers with the tags of
  the parts in the order it was given them.  \<open>refusing_svc\<close> is a store that refuses to
  create a session.
\<close>

definition os_file :: "byte list \<Rightarrow> File" where
  "os_file bytes = \<lparr>unread = bytes, faults = None, max_read = 2 ^ 30\<rparr>"

definition demo_fs :: "string \<Rightarrow> File option" where
  "demo_fs path =
     (if path = ''five'' then Some (os_file [1, 2, 3, 4, 5])
      else if path = ''empty'' then Some (os_file [])
      else None)"

definition demo_svc :: "int \<Rightarrow> S3" where
  "demo_svc bad =
     \<lparr>CreateMultipartUpload = (\<lambda>bucket key. Inr (Some ''id'')),
      UploadPart = (\<lambda>bucket key uid partNumber body.
        if partNumber = bad then Inl ''timeout''
        else Inr (Some (replicate (nat partNumber) CHR ''t''))),
      CompleteMultipartUpload = (\<lambda>bucket key uid parts.
        Inr (concat (map (\<lambda>p. case ETag p of None \<Rightarrow> ''-'' | Some t \<Rightarrow> t @ ''.'') parts)))\<rparr>"

definition refusing_svc :: S3 where
  "refusing_svc = (demo_svc 0)\<lparr>CreateMultipartUpload := (\<lambda>bucket key. Inl ''denied'')\<rparr>"

section \<open>Properties of the pieces\<close>

subsection \<open>Counting and slicing\<close>

lemma ceil_count:
  assumes n: "0 < (n::nat)"
  shows "nat \<lceil>real m / real n\<rceil> = (m + n - 1) div n"
proof -
  define q where "q = (m + n - 1) div n"
  have q1: "q * n \<le> m + n - 1"
    by (simp add: q_def)
  have q2: "m + n - 1 < n + q * n"
    unfolding q_def using n by (rule dividend_less_div_times)
  from q2 n have up: "m \<le> q * n" by simp
  have lo: "(int q - 1) * int n < int m"
  proof (cases "m = 0")
    case True
    then have "q = 0" using n by (simp add: q_def)
    then show ?thesis using n True by simp
  next
    case False
    with q1 n have "q * n < m + n" by simp
    then have "int q * int n < int m + int n"
      by (metis of_nat_add of_nat_less_iff of_nat_mult)
    then show ?thesis by (simp add: algebra_simps)
  qed
  have "real m / real n \<le> real q"
    using up n by (simp add: pos_divide_le_eq flip: of_nat_mult)
  moreover have "real_of_int (int q) - 1 < real m / real n"
  proof -
    from lo have "real_of_int ((int q - 1) * int n) < real_of_int (int m)"
      by (simp only: of_int_less_iff)
    then show ?thesis using n by (simp add: pos_less_divide_eq)
  qed
  ultimately have "\<lceil>real m / real n\<rceil> = int q"
    by (intro ceiling_unique) simp_all
  then show ?thesis by (simp add: q_def)
qed

lemma slices_Nil [simp]: "slices k n [] = []"
  by (cases "n = 0") (simp_all add: slices_def)

lemma slices_zero [simp]: "slices k 0 xs = []"
  by (simp add: slices_def)

lemma count_step:
  assumes "0 < n" "0 < (m::nat)"
  shows "(m + n - 1) div n = Suc ((m - n + n - 1) div n)"
proof (cases "n \<le> m")
  case True
  then have "m + n - 1 = (m - n + n - 1) + n" using assms by simp
  then have "(m + n - 1) div n = ((m - n + n - 1) + n) div n" by (rule arg_cong)
  also have "\<dots> = Suc ((m - n + n - 1) div n)" using assms by (simp only: div_add_self2)
  finally show ?thesis .
next
  case False
  then have "m - n + n - 1 = n - 1" by simp
  moreover have "(m + n - 1) div n = 1" using False assms
    by (simp add: div_nat_eqI)
  ultimately show ?thesis using assms by simp
qed

lemma slices_step:
  assumes "0 < n" "xs \<noteq> []"
  shows "slices k n xs = (k, take n xs) # slices (k + 1) n (drop n xs)"
proof -
  have c: "(length xs + n - 1) div n = Suc ((length xs - n + n - 1) div n)"
    using assms by (intro count_step) simp_all
  have "slices k n xs =
        map (\<lambda>i. (k + int i, take n (drop (i * n) xs))) [0..<Suc ((length xs - n + n - 1) div n)]"
    by (simp only: slices_def c)
  also have "\<dots> = (k, take n xs) #
        map (\<lambda>i. (k + int (Suc i), take n (drop (Suc i * n) xs))) [0..<(length xs - n + n - 1) div n]"
    by (simp only: map_upt_Suc) simp
  also have "map (\<lambda>i. (k + int (Suc i), take n (drop (Suc i * n) xs))) [0..<(length xs - n + n - 1) div n]
     = slices (k + 1) n (drop n xs)"
    unfolding slices_def by (rule map_cong) (simp_all add: add.commute add.left_commute)
  finally show ?thesis .
qed

lemma length_slices: "length (slices k n xs) = (length xs + n - 1) div n"
  by (simp add: slices_def)

lemma nth_slices:
  "i < length (slices k n xs) \<Longrightarrow> slices k n xs ! i = (k + int i, take n (drop (i * n) xs))"
  by (simp add: slices_def)

lemma concat_slices: "0 < n \<Longrightarrow> concat (map snd (slices k n xs)) = xs"
proof (induction "length xs" arbitrary: xs k rule: less_induct)
  case less
  show ?case
  proof (cases "xs = []")
    case True
    then show ?thesis by simp
  next
    case False
    with less.prems have "length (drop n xs) < length xs" by (cases xs) auto
    then have "concat (map snd (slices (k + 1) n (drop n xs))) = drop n xs"
      using less.prems by (intro less.hyps)
    then show ?thesis
      by (simp add: slices_step[OF less.prems False])
  qed
qed

subsection \<open>Reading and the two loops\<close>

lemma Read_ok:
  "faults fd = None \<Longrightarrow> 0 < n \<Longrightarrow>
   Read fd n = ReadOk (take (min n (max_read fd)) (unread fd))
                 (fd\<lparr>unread := drop (min n (max_read fd)) (unread fd)\<rparr>)"
  by (simp add: Read_def Let_def)

lemma Read_zero: "Read fd 0 = ReadOk [] fd"
  by (simp add: Read_def)

lemma launch_loop_stop:
  assumes "0 \<le> partSize" "partSize \<le> int maxAlloc"
    "partSize = 0 \<or> unread fd = [] \<or> max_read fd = 0" "faults fd = None"
  shows "launch_loop maxAlloc partSize fd k tasks = Launched tasks"
proof (cases "partSize = 0")
  case True
  then show ?thesis
    by (subst launch_loop.simps) (simp add: Read_zero)
next
  case False
  with assms have "0 < nat partSize" "unread fd = [] \<or> max_read fd = 0" by auto
  with assms show ?thesis
    by (subst launch_loop.simps) (auto simp add: Read_ok)
qed

lemma launch_loop_step:
  assumes "0 < partSize" "unread fd \<noteq> []" "0 < max_read fd" "faults fd = None"
    "partSize \<le> int maxAlloc"
  shows "launch_loop maxAlloc partSize fd k tasks =
   launch_loop maxAlloc partSize
     (fd\<lparr>unread := drop (min (nat partSize) (max_read fd)) (unread fd)\<rparr>) (k + 1)
     (tasks @ [(k, take (min (nat partSize) (max_read fd)) (unread fd))])"
proof -
  have "length (take (min (nat partSize) (max_read fd)) (unread fd)) \<noteq> 0"
    using assms by simp
  with assms show ?thesis
    by (subst launch_loop.simps) (simp add: Read_ok del: length_take take_eq_Nil)
qed

lemma launch_loop_slices:
  "faults fd = None \<Longrightarrow> 0 \<le> partSize \<Longrightarrow> partSize \<le> int maxAlloc \<Longrightarrow>
   launch_loop maxAlloc partSize fd k tasks =
   Launched (tasks @ slices k (min (nat partSize) (max_read fd)) (unread fd))"
proof (induction "length (unread fd)" arbitrary: fd k tasks rule: less_induct)
  case less
  let ?n = "min (nat partSize) (max_read fd)"
  show ?case
  proof (cases "partSize = 0 \<or> unread fd = [] \<or> max_read fd = 0")
    case True
    then have "slices k ?n (unread fd) = []" by auto
    with True less.prems show ?thesis
      by (simp add: launch_loop_stop)
  next
    case False
    then have n: "0 < ?n" and ne: "unread fd \<noteq> []" and p: "0 < partSize"
      and m: "0 < max_read fd"
      using less.prems by auto
    let ?fd' = "fd\<lparr>unread := drop ?n (unread fd)\<rparr>"
    have "length (unread ?fd') < length (unread fd)"
      using n ne by (cases "unread fd") auto
    then have "launch_loop maxAlloc partSize ?fd' (k + 1) (tasks @ [(k, take ?n (unread fd))]) =
        Launched ((tasks @ [(k, take ?n (unread fd))]) @
                  slices (k + 1) (min (nat partSize) (max_read ?fd')) (unread ?fd'))"
      using less.prems by (intro less.hyps) simp_all
    then show ?thesis
      using less.prems by (simp add: launch_loop_step[OF p ne m] slices_step[OF n ne])
  qed
qed

lemma launch_loop_unfold_done:
  assumes "launch_loop maxAlloc partSize fd k tacc = Launched ts"
  shows "\<not> (partSize < 0 \<or> int maxAlloc < partSize) \<and>
         (\<exists>buffer fd'. Read fd (nat partSize) = ReadOk buffer fd' \<and>
          (if length buffer = 0 then ts = tacc
           else launch_loop maxAlloc partSize fd' (k + 1) (tacc @ [(k, buffer)]) = Launched ts))"
proof (cases "Read fd (nat partSize)")
  case ReadErr
  with assms show ?thesis
    by (subst (asm) launch_loop.simps) (simp split: if_splits)
next
  case (ReadOk buffer fd')
  with assms show ?thesis
    by (subst (asm) launch_loop.simps) (simp split: if_splits)
qed

lemma launch_loop_numbers:
  "launch_loop maxAlloc partSize fd k acc = Launched ts \<Longrightarrow>
   \<exists>rest. ts = acc @ rest \<and> map fst rest = map (\<lambda>i. k + int i) [0..<length rest]"
proof (induction maxAlloc partSize fd k acc rule: launch_loop.induct)
  case (1 maxAlloc partSize fd partNumber tasks)
  from launch_loop_unfold_done[OF "1.prems"]
  obtain buffer fd' where nn: "\<not> (partSize < 0 \<or> int maxAlloc < partSize)"
    and rd: "Read fd (nat partSize) = ReadOk buffer fd'"
    and body: "if length buffer = 0 then ts = tasks
           else launch_loop maxAlloc partSize fd' (partNumber + 1) (tasks @ [(partNumber, buffer)]) =
                Launched ts"
    by blast
  show ?case
  proof (cases "length buffer = 0")
    case True
    with body show ?thesis by simp
  next
    case False
    with body have "launch_loop maxAlloc partSize fd' (partNumber + 1) (tasks @ [(partNumber, buffer)]) =
        Launched ts" by simp
    from "1.IH"[OF nn rd False this]
    obtain rest where ts: "ts = (tasks @ [(partNumber, buffer)]) @ rest"
      and fs: "map fst rest = map (\<lambda>i. partNumber + 1 + int i) [0..<length rest]"
      by blast
    have "map fst ((partNumber, buffer) # rest) =
          map (\<lambda>i. partNumber + int i) [0..<length ((partNumber, buffer) # rest)]"
      using fs by (simp add: map_upt_Suc add.commute add.left_commute del: upt_Suc)
    with ts show ?thesis
      by (intro exI[of _ "(partNumber, buffer) # rest"]) simp
  qed
qed

lemma launch_loop_part_numbers:
  assumes "launch_loop maxAlloc partSize fd 1 [] = Launched tasks"
  shows "map fst tasks = map (\<lambda>i. 1 + int i) [0..<length tasks]"
  using launch_loop_numbers[OF assms] by simp

lemma sorted_part_numbers:
  "map fst tasks = map (\<lambda>i. 1 + int i) [0..<length tasks] \<Longrightarrow> sorted_wrt (<) (map fst tasks)"
  by (simp add: sorted_wrt_map sorted_wrt_iff_nth_less)

lemma launched_sorted:
  "launch_loop maxAlloc partSize fd 1 [] = Launched tasks \<Longrightarrow> sorted_wrt (<) (map fst tasks)"
  by (rule sorted_part_numbers[OF launch_loop_part_numbers])

lemma upload_loop_launched:
  "launch_loop maxAlloc partSize fd k tacc = Launched (tacc @ rest) \<Longrightarrow>
   \<forall>t \<in> set rest. \<exists>tag. UploadPart svc bucket key uid (fst t) (snd t) = Inr tag \<Longrightarrow>
   upload_loop svc bucket key uid (nat partSize) fd k cacc calls =
     (Inr (cacc @ map completed (map (upload_task svc bucket key uid) rest)),
      calls @ map (\<lambda>t. UploadPartCall uid (fst t) (snd t)) rest)"
proof (induction maxAlloc partSize fd k tacc arbitrary: rest cacc calls rule: launch_loop.induct)
  case (1 maxAlloc partSize fd partNumber tasks)
  from launch_loop_unfold_done[OF "1.prems"(1)]
  obtain buffer fd' where nn: "\<not> (partSize < 0 \<or> int maxAlloc < partSize)"
    and rd: "Read fd (nat partSize) = ReadOk buffer fd'"
    and body: "if length buffer = 0 then tasks @ rest = tasks
           else launch_loop maxAlloc partSize fd' (partNumber + 1) (tasks @ [(partNumber, buffer)]) =
                Launched (tasks @ rest)"
    by blast
  show ?case
  proof (cases "length buffer = 0")
    case True
    with body have "rest = []" by simp
    with rd True show ?thesis
      by (subst upload_loop.simps) simp
  next
    case False
    with body have next_run:
      "launch_loop maxAlloc partSize fd' (partNumber + 1) (tasks @ [(partNumber, buffer)]) =
       Launched (tasks @ rest)" by simp
    from launch_loop_numbers[OF this] obtain rest' where
      "tasks @ rest = (tasks @ [(partNumber, buffer)]) @ rest'" by blast
    then have rest: "rest = (partNumber, buffer) # rest'" by simp
    with "1.prems"(2) obtain tag where
      up: "UploadPart svc bucket key uid partNumber buffer = Inr tag" by auto
    have run': "launch_loop maxAlloc partSize fd' (partNumber + 1) (tasks @ [(partNumber, buffer)]) =
       Launched ((tasks @ [(partNumber, buffer)]) @ rest')"
      using next_run rest by simp
    have ok': "\<forall>t \<in> set rest'. \<exists>tag. UploadPart svc bucket key uid (fst t) (snd t) = Inr tag"
      using "1.prems"(2) rest by simp
    note ih = "1.IH"[OF nn rd False run' ok',
        of "cacc @ [\<lparr>ETag = tag, PartNumber = partNumber\<rparr>]"
           "calls @ [UploadPartCall uid partNumber buffer]"]
    have "upload_loop svc bucket key uid (nat partSize) fd partNumber cacc calls =
          upload_loop svc bucket key uid (nat partSize) fd' (partNumber + 1)
            (cacc @ [\<lparr>ETag = tag, PartNumber = partNumber\<rparr>])
            (calls @ [UploadPartCall uid partNumber buffer])"
      using rd False up by (subst upload_loop.simps) simp
    with ih show ?thesis
      using up by (simp add: rest completed_def upload_task_def)
  qed
qed

subsection \<open>Arrival, collection and sorting\<close>

lemma mset_arrival [simp]: "mset (arrival sched xs) = mset xs"
proof (induction sched xs rule: arrival.induct)
  case (3 c sched x xs)
  let ?ys = "x # xs"
  let ?i = "c mod length ?ys"
  have i: "?i < length ?ys" by simp
  have "mset ?ys = mset (take ?i ?ys @ ?ys ! ?i # drop (Suc ?i) ?ys)"
    using i by (simp only: id_take_nth_drop[OF i, symmetric])
  then have "mset ?ys = add_mset (?ys ! ?i) (mset (take ?i ?ys @ drop (Suc ?i) ?ys))"
    by simp
  with 3 show ?case
    by (simp add: Let_def del: mset_append)
qed simp_all

lemma set_arrival [simp]: "set (arrival sched xs) = set xs"
  by (metis mset_arrival set_mset_mset)

text \<open>Every order of arrival is the order of some schedule.\<close>

lemma arrival_any_order:
  "mset ys = mset xs \<Longrightarrow> \<exists>sched. arrival sched xs = ys"
proof (induction ys arbitrary: xs)
  case Nil
  then have "xs = []" by simp
  then show ?case by simp
next
  case (Cons y ys)
  then have "y \<in> set xs" by (metis list.set_intros(1) mset_eq_setD)
  then obtain i where i: "i < length xs" and y: "xs ! i = y"
    by (auto simp: in_set_conv_nth)
  let ?rest = "take i xs @ drop (Suc i) xs"
  have "mset xs = add_mset y (mset ?rest)"
    using id_take_nth_drop[OF i] y by (metis mset.simps(2) mset_append union_mset_add_mset_right)
  with Cons.prems have "mset ys = mset ?rest" by simp
  from Cons.IH[OF this] obtain sched where sched: "arrival sched ?rest = ys" by blast
  from i obtain x xs' where xs: "xs = x # xs'" by (cases xs) auto
  have "arrival (i # sched) xs = y # ys"
    using i y sched unfolding xs by (simp add: Let_def)
  then show ?case by blast
qed

lemma collect_ok:
  "\<forall>r \<in> set rs. Err r = None \<Longrightarrow> collect rs acc = Inr (acc @ map completed rs)"
  by (induction rs arbitrary: acc) (simp_all add: completed_def)

lemma collect_fail:
  "r \<in> set rs \<Longrightarrow> Err r = Some e \<Longrightarrow> \<forall>r' \<in> set rs. Err r' \<noteq> None \<longrightarrow> r' = r \<Longrightarrow>
   collect rs acc = Inl (PartResultError (PartResult.PartNumber r) e)"
proof (induction rs arbitrary: acc)
  case Nil
  then show ?case by simp
next
  case (Cons a rs)
  show ?case
  proof (cases "Err a")
    case None
    with Cons.prems have in_rs: "r \<in> set rs" by auto
    have only: "\<forall>r' \<in> set rs. Err r' \<noteq> None \<longrightarrow> r' = r"
      using Cons.prems(3) by simp
    have "collect rs (acc @ [\<lparr>ETag = PartResult.ETag a, PartNumber = PartResult.PartNumber a\<rparr>]) =
        Inl (PartResultError (PartResult.PartNumber r) e)"
      by (rule Cons.IH[OF in_rs Cons.prems(2) only])
    with None show ?thesis by simp
  next
    case (Some e')
    with Cons.prems(3) have "a = r" by auto
    with Cons.prems(2) show ?thesis by simp
  qed
qed

lemma sort_parts:
  assumes perm: "mset xs = mset ps" and asc: "sorted_wrt (<) (map PartNumber ps)"
  shows "sort_key PartNumber xs = ps"
proof (rule sort_key_inj_key_eq)
  from asc have sd: "sorted (map PartNumber ps) \<and> distinct (map PartNumber ps)"
    by (simp only: strict_sorted_iff)
  show "mset xs = mset ps" by (rule perm)
  from perm have "set xs = set ps" by (rule mset_eq_setD)
  with sd show "inj_on PartNumber (set xs)"
    by (simp add: distinct_map)
  from sd show "sorted (map PartNumber ps)" by simp
qed

lemma map_completed_upload_task:
  "map PartNumber (map completed (map (upload_task svc bucket key uid) tasks)) = map fst tasks"
  by (induction tasks) (auto simp: completed_def upload_task_def split: sum.splits)

subsection \<open>A run in which every part upload succeeds\<close>

lemma concurrent_run_ok:
  assumes conc: "1 \<le> maxConcurrency" "maxConcurrency \<le> 8"
    and opened: "fs filePath = Some fd"
    and init: "CreateMultipartUpload svc bucket key = Inr uid"
    and launched: "launch_loop maxAlloc partSize fd 1 [] = Launched tasks"
    and ok: "\<forall>t \<in> set tasks. \<exists>tag. UploadPart svc bucket key uid (fst t) (snd t) = Inr tag"
  shows "ConcurrentMultipartUpload svc fs sched maxAlloc bucket key filePath partSize maxConcurrency =
        (case CompleteMultipartUpload svc bucket key uid
                (map completed (map (upload_task svc bucket key uid) tasks)) of
           Inl err \<Rightarrow> Failed (CompleteError err) | Inr out \<Rightarrow> Ok out,
         CreateCall bucket key # map (\<lambda>t. UploadPartTask uid (fst t) (snd t)) tasks @
         [CompleteCall uid (map completed (map (upload_task svc bucket key uid) tasks))])"
proof -
  let ?results = "map (upload_task svc bucket key uid) tasks"
  let ?parts = "map completed ?results"
  have noerr: "\<forall>r \<in> set (arrival sched ?results). Err r = None"
    using ok by (auto simp: upload_task_def)
  have collected: "collect (arrival sched ?results) [] = Inr (map completed (arrival sched ?results))"
    using collect_ok[OF noerr, of "[]"] by simp
  have sorted: "sorted_wrt (<) (map PartNumber ?parts)"
    by (simp only: map_completed_upload_task launched_sorted[OF launched])
  have "mset (map completed (arrival sched ?results)) = mset ?parts"
    by (simp only: mset_map mset_arrival)
  then have sort: "sort_key PartNumber (map completed (arrival sched ?results)) = ?parts"
    using sorted by (rule sort_parts)
  have small: "\<not> maxConcurrency > 8" "\<not> maxConcurrency < 0"
    "\<not> (maxConcurrency = 0 \<and> tasks \<noteq> [])"
    using conc by simp_all
  show ?thesis
    unfolding ConcurrentMultipartUpload_def
    by (simp only: small opened init launched collected sort Let_def if_False
          option.case sum.case launch_result.case append_Cons)
qed

lemma demo_launch:
  "launch_loop runtime_maxAlloc 2 (os_file [1, 2, 3, 4, 5]) 1 [] =
   Launched [(1, [1, 2]), (2, [3, 4]), (3, [5])]"
  by (simp add: launch_loop.simps Read_def os_file_def runtime_maxAlloc_def)

lemma concurrent_run_failed:
  assumes conc: "1 \<le> maxConcurrency" "maxConcurrency \<le> 8"
    and opened: "fs filePath = Some fd"
    and init: "CreateMultipartUpload svc bucket key = Inr uid"
    and launched: "launch_loop maxAlloc partSize fd 1 [] = Launched tasks"
    and collected: "collect (arrival sched (map (upload_task svc bucket key uid) tasks)) [] = Inl e"
  shows "ConcurrentMultipartUpload svc fs sched maxAlloc bucket key filePath partSize maxConcurrency =
        (Failed e, CreateCall bucket key # map (\<lambda>t. UploadPartTask uid (fst t) (snd t)) tasks)"
proof -
  have small: "\<not> maxConcurrency > 8" "\<not> maxConcurrency < 0"
    "\<not> (maxConcurrency = 0 \<and> tasks \<noteq> [])"
    using conc by simp_all
  show ?thesis
    unfolding ConcurrentMultipartUpload_def
    by (simp only: small opened init launched collected Let_def if_False
          option.case sum.case launch_result.case)
qed

lemma sequential_run_ok:
  assumes opened: "fs filePath = Some fd"
    and init: "CreateMultipartUpload svc bucket key = Inr uid"
    and launched: "launch_loop maxAlloc partSize fd 1 [] = Launched tasks"
    and ok: "\<forall>t \<in> set tasks. \<exists>tag. UploadPart svc bucket key uid (fst t) (snd t) = Inr tag"
  shows "MultipartUpload svc fs maxAlloc bucket key filePath partSize =
        (case CompleteMultipartUpload svc bucket key uid
                (map completed (map (upload_task svc bucket key uid) tasks)) of
           Inl err \<Rightarrow> Failed (CompleteError err) | Inr out \<Rightarrow> Ok out,
         CreateCall bucket key # map (\<lambda>t. UploadPartCall uid (fst t) (snd t)) tasks @
         [CompleteCall uid (map completed (map (upload_task svc bucket key uid) tasks))])"
proof -
  from launch_loop_unfold_done[OF launched]
  have nn: "\<not> (partSize < 0 \<or> int maxAlloc < partSize)" by blast
  have launched': "launch_loop maxAlloc partSize fd 1 [] = Launched ([] @ tasks)"
    using launched by simp
  have loop: "upload_loop svc bucket key uid (nat partSize) fd 1 [] [CreateCall bucket key] =
      (Inr ([] @ map completed (map (upload_task svc bucket key uid) tasks)),
       [CreateCall bucket key] @ map (\<lambda>t. UploadPartCall uid (fst t) (snd t)) tasks)"
    by (rule upload_loop_launched[OF launched' ok])
  show ?thesis
    unfolding MultipartUpload_def
    by (simp only: nn opened init loop if_False option.case sum.case prod.case
          append_Nil append_Cons)
qed

subsection \<open>The chunks of a file\<close>

lemma chunking_exact:
  assumes size: "0 < partSize" "partSize \<le> int maxAlloc" and nofault: "faults fd = None"
    and full: "nat partSize \<le> max_read fd"
  shows "\<exists>tasks. launch_loop maxAlloc partSize fd 1 [] = Launched tasks
     \<and> int (length tasks) = \<lceil>real (length (unread fd)) / real_of_int partSize\<rceil>
     \<and> (\<forall>i < length tasks. tasks ! i =
           (int i + 1,
            take (min (nat partSize) (length (unread fd) - i * nat partSize))
              (drop (i * nat partSize) (unread fd))))
     \<and> concat (map snd tasks) = unread fd"
proof -
  let ?n = "nat partSize"
  let ?xs = "unread fd"
  let ?tasks = "slices 1 ?n ?xs"
  have n: "0 < ?n" using size by simp
  have m: "min ?n (max_read fd) = ?n" using full by simp
  have run: "launch_loop maxAlloc partSize fd 1 [] = Launched ?tasks"
    using launch_loop_slices[OF nofault, of partSize maxAlloc 1 "[]"] size by (simp add: m)
  have "nat \<lceil>real (length ?xs) / real ?n\<rceil> = length ?tasks"
    by (simp only: ceil_count[OF n] length_slices)
  moreover have "0 \<le> \<lceil>real (length ?xs) / real ?n\<rceil>"
  proof -
    have "(0::real) \<le> real (length ?xs) / real ?n" by simp
    then have "\<lceil>0::real\<rceil> \<le> \<lceil>real (length ?xs) / real ?n\<rceil>"
      by (rule ceiling_mono)
    then show ?thesis by (simp only: ceiling_zero)
  qed
  moreover have "real ?n = real_of_int partSize" using size by simp
  ultimately have count: "int (length ?tasks) = \<lceil>real (length ?xs) / real_of_int partSize\<rceil>"
    by (metis nat_0_le)
  have nth: "\<forall>i < length ?tasks. ?tasks ! i =
           (int i + 1, take (min ?n (length ?xs - i * ?n)) (drop (i * ?n) ?xs))"
  proof (intro allI impI)
    fix i assume "i < length ?tasks"
    then have "?tasks ! i = (1 + int i, take ?n (drop (i * ?n) ?xs))"
      by (rule nth_slices)
    moreover have "take ?n (drop (i * ?n) ?xs) =
        take (min ?n (length ?xs - i * ?n)) (drop (i * ?n) ?xs)"
      by (simp add: min_def)
    ultimately show "?tasks ! i =
           (int i + 1, take (min ?n (length ?xs - i * ?n)) (drop (i * ?n) ?xs))"
      by (simp add: add.commute)
  qed
  have cover: "concat (map snd ?tasks) = ?xs"
    by (rule concat_slices[OF n])
  from run count nth cover show ?thesis by blast
qed

lemma chunking_covers:
  assumes size: "0 < partSize" "partSize \<le> int maxAlloc" and nofault: "faults fd = None"
    and some: "0 < max_read fd"
  shows "\<exists>tasks. launch_loop maxAlloc partSize fd 1 [] = Launched tasks
     \<and> map fst tasks = map (\<lambda>i. 1 + int i) [0..<length tasks]
     \<and> concat (map snd tasks) = unread fd"
proof -
  let ?n = "min (nat partSize) (max_read fd)"
  have n: "0 < ?n" using size some by simp
  have run: "launch_loop maxAlloc partSize fd 1 [] = Launched (slices 1 ?n (unread fd))"
    using launch_loop_slices[OF nofault, of partSize maxAlloc 1 "[]"] size by simp
  from launch_loop_part_numbers[OF run] concat_slices[OF n, of 1 "unread fd"] run
  show ?thesis by blast
qed

lemma java_part_loop_closed:
  "0 < partSize \<Longrightarrow>
   java_part_loop partSize contentLength i pos submitted =
   Some (submitted @ java_parts i pos partSize contentLength)"
proof (induction "nat (contentLength - pos)" arbitrary: i pos submitted rule: less_induct)
  case less
  show ?case
  proof (cases "pos < contentLength")
    case False
    then have "nat (contentLength - pos) = 0" by simp
    then have "java_parts i pos partSize contentLength = []"
      using less.prems by (simp add: java_parts_def)
    with False show ?thesis
      by (subst java_part_loop.simps) simp
  next
    case True
    let ?cur = "min partSize (contentLength - pos)"
    let ?m = "nat (contentLength - pos)"
    let ?n = "nat partSize"
    have cur: "0 < ?cur" using True less.prems by simp
    have smaller: "nat (contentLength - (pos + ?cur)) < nat (contentLength - pos)"
      using True cur by simp
    have ih: "java_part_loop partSize contentLength (i + 1) (pos + ?cur)
                (submitted @ [(i, pos, ?cur)]) =
              Some ((submitted @ [(i, pos, ?cur)]) @
                    java_parts (i + 1) (pos + ?cur) partSize contentLength)"
      by (rule less.hyps[OF smaller less.prems])
    have parts: "java_parts i pos partSize contentLength =
                 (i, pos, ?cur) # java_parts (i + 1) (pos + ?cur) partSize contentLength"
    proof (cases "partSize \<le> contentLength - pos")
      case full: True
      then have c: "?cur = partSize" by simp
      have m: "nat (contentLength - (pos + partSize)) = ?m - ?n"
        using full less.prems by simp
      have "(?m + ?n - 1) div ?n = Suc ((?m - ?n + ?n - 1) div ?n)"
        using True less.prems by (intro count_step) simp_all
      then have "java_parts i pos partSize contentLength =
          map (\<lambda>k. (i + of_nat k, pos + int k * partSize,
               min partSize (contentLength - (pos + int k * partSize))))
            [0..<Suc ((?m - ?n + ?n - 1) div ?n)]"
        by (simp only: java_parts_def)
      also have "\<dots> = (i, pos, ?cur) #
          map (\<lambda>k. (i + of_nat (Suc k), pos + int (Suc k) * partSize,
               min partSize (contentLength - (pos + int (Suc k) * partSize))))
            [0..<(?m - ?n + ?n - 1) div ?n]"
        by (simp only: map_upt_Suc) simp
      also have "map (\<lambda>k. (i + of_nat (Suc k), pos + int (Suc k) * partSize,
               min partSize (contentLength - (pos + int (Suc k) * partSize))))
            [0..<(?m - ?n + ?n - 1) div ?n] =
          java_parts (i + 1) (pos + ?cur) partSize contentLength"
        unfolding java_parts_def c m
        by (rule map_cong) (simp_all add: algebra_simps)
      finally show ?thesis .
    next
      case short: False
      then have c: "?cur = contentLength - pos" by simp
      have one: "(?m + ?n - 1) div ?n = 1"
        using short True less.prems by (simp add: div_nat_eqI)
      have "java_parts (i + 1) (pos + ?cur) partSize contentLength = []"
        using less.prems by (simp add: java_parts_def c)
      moreover have "java_parts i pos partSize contentLength = [(i, pos, ?cur)]"
        unfolding java_parts_def one by simp
      ultimately show ?thesis by simp
    qed
    show ?thesis
      using True ih by (subst java_part_loop.simps) (simp add: parts Let_def)
  qed
qed

lemma java_chunking_exact:
  assumes size: "0 < partSize" and len: "0 \<le> contentLength"
  shows "\<exists>parts. java_part_loop partSize contentLength 1 0 [] = Some parts
     \<and> int (length parts) = \<lceil>real_of_int contentLength / real_of_int partSize\<rceil>
     \<and> (\<forall>k < length parts. parts ! k =
           (1 + of_nat k, int k * partSize, min partSize (contentLength - int k * partSize)))"
proof -
  let ?parts = "java_parts 1 0 partSize contentLength"
  have run: "java_part_loop partSize contentLength 1 0 [] = Some ?parts"
    using java_part_loop_closed[OF size, of contentLength 1 0 "[]"] by simp
  have n: "0 < nat partSize" using size by simp
  have "nat \<lceil>real (nat contentLength) / real (nat partSize)\<rceil> = length ?parts"
    by (simp add: ceil_count[OF n] java_parts_def)
  moreover have "0 \<le> \<lceil>real (nat contentLength) / real (nat partSize)\<rceil>"
  proof -
    have "(0::real) \<le> real (nat contentLength) / real (nat partSize)" by simp
    then have "\<lceil>0::real\<rceil> \<le> \<lceil>real (nat contentLength) / real (nat partSize)\<rceil>"
      by (rule ceiling_mono)
    then show ?thesis by (simp only: ceiling_zero)
  qed
  moreover have "real (nat contentLength) = real_of_int contentLength"
    "real (nat partSize) = real_of_int partSize"
    using size len by simp_all
  ultimately have count: "int (length ?parts) = \<lceil>real_of_int contentLength / real_of_int partSize\<rceil>"
    by (metis nat_0_le)
  have nth: "\<forall>k < length ?parts. ?parts ! k =
           (1 + of_nat k, int k * partSize, min partSize (contentLength - int k * partSize))"
    by (simp add: java_parts_def)
  from run count nth show ?thesis by blast
qed

text \<open>
  With a part size of 0 and a file that is not empty the Java loop never moves
  \<^verbatim>\<open>filePosition\<close> and does not end (with a negative part size it moves backwards, and
  the \<^verbatim>\<open>long\<close> of the code would have to wrap around before the loop could end).
\<close>

lemma java_part_loop_returns:
  assumes "java_part_loop partSize contentLength i filePosition submitted = Some parts"
  shows "0 < partSize \<or> contentLength \<le> filePosition"
proof (rule java_part_loop.raw_induct[where
      P = "\<lambda>partSize contentLength i filePosition submitted parts.
             0 < partSize \<or> contentLength \<le> filePosition", OF _ assms])
  fix f :: "int \<Rightarrow> int \<Rightarrow> 32 word \<Rightarrow> int \<Rightarrow> java_part list \<Rightarrow> java_part list option"
    and partSize contentLength filePosition :: int and i :: "32 word"
    and submitted parts :: "java_part list"
  assume ih: "\<And>partSize contentLength i filePosition submitted parts.
      f partSize contentLength i filePosition submitted = Some parts \<Longrightarrow>
      0 < partSize \<or> contentLength \<le> filePosition"
    and body: "(if filePosition < contentLength
      then let currentPartSize = min partSize (contentLength - filePosition)
           in f partSize contentLength (i + 1) (filePosition + currentPartSize)
               (submitted @ [(i, filePosition, currentPartSize)])
      else Some submitted) = Some parts"
  show "0 < partSize \<or> contentLength \<le> filePosition"
  proof (rule ccontr)
    assume "\<not> (0 < partSize \<or> contentLength \<le> filePosition)"
    then have p: "partSize \<le> 0" and l: "filePosition < contentLength" by simp_all
    from body l have "f partSize contentLength (i + 1)
        (filePosition + min partSize (contentLength - filePosition))
        (submitted @ [(i, filePosition, min partSize (contentLength - filePosition))]) = Some parts"
      by (simp add: Let_def)
    from ih[OF this] p l show False by auto
  qed
qed

lemma java_part_loop_never_ends:
  "partSize \<le> 0 \<Longrightarrow> filePosition < contentLength \<Longrightarrow>
   java_part_loop partSize contentLength i filePosition submitted = None"
  using java_part_loop_returns[of partSize contentLength i filePosition submitted]
  by (cases "java_part_loop partSize contentLength i filePosition submitted") auto


text \<open>
  The scenario of a file of 20,000,000 bytes in parts of 8 MiB, on the Go loop and on
  the Java loop.
\<close>

lemma go_scenario:
  "\<exists>tasks. launch_loop runtime_maxAlloc 8388608 (os_file (replicate 20000000 0)) 1 [] =
            Launched tasks
     \<and> map fst tasks = [1, 2, 3]
     \<and> map (\<lambda>t. length (snd t)) tasks = [8388608, 8388608, 3222784]"
proof -
  let ?fd = "os_file (replicate 20000000 0)"
  let ?tasks = "slices 1 8388608 (replicate 20000000 (0 :: byte))"
  have nofault: "faults ?fd = None" by (simp add: os_file_def)
  have m: "min (nat 8388608) (max_read ?fd) = 8388608"
    by (simp add: os_file_def)
  have u: "unread ?fd = replicate 20000000 0" by (simp add: os_file_def)
  have fits: "(8388608 :: int) \<le> int runtime_maxAlloc" by (simp add: runtime_maxAlloc_def)
  have run: "launch_loop runtime_maxAlloc 8388608 ?fd 1 [] = Launched ?tasks"
    using launch_loop_slices[where k = 1 and tasks = "[]", OF nofault _ fits]
    by (simp only: m u) simp
  have three: "(length (replicate 20000000 (0 :: byte)) + 8388608 - 1) div 8388608 = Suc (Suc (Suc 0))"
    by (simp only: length_replicate)
  have "?tasks = [(1, replicate 8388608 0), (2, replicate 8388608 0), (3, replicate 3222784 0)]"
    unfolding slices_def three by (simp add: upt_rec)
  with run show ?thesis by simp
qed


lemma java_scenario:
  "java_part_loop 8388608 20000000 1 0 [] =
   Some [(1, 0, 8388608), (2, 8388608, 8388608), (3, 16777216, 3222784)]"
  by (simp add: java_part_loop.simps)

subsection \<open>Configurations that are not rejected\<close>

lemma launch_loop_nonpositive:
  "partSize \<le> 0 \<Longrightarrow>
   launch_loop maxAlloc partSize fd k tasks =
   (if partSize < 0 then SlicePanic tasks else Launched tasks)"
  by (subst launch_loop.simps) (auto simp: Read_zero)

text \<open>
  A part size beyond the allocation bound: both functions create the session and are
  then ended in \<^verbatim>\<open>make([]byte, partSize)\<close>, the sequential one before its loop, the
  concurrent one in the first iteration of its loop.
\<close>

lemma launch_loop_oversize:
  "int maxAlloc < partSize \<Longrightarrow> launch_loop maxAlloc partSize fd k tasks = SlicePanic tasks"
  by (subst launch_loop.simps) simp

lemma oversize_buffer_concurrent:
  assumes "int maxAlloc < partSize" "0 \<le> maxConcurrency" "maxConcurrency \<le> 8"
    and "fs filePath = Some fd" "CreateMultipartUpload svc bucket key = Inr uid"
  shows "ConcurrentMultipartUpload svc fs sched maxAlloc bucket key filePath partSize
           maxConcurrency = (Panic MakeSliceLen, [CreateCall bucket key])"
  using assms by (simp add: ConcurrentMultipartUpload_def launch_loop_oversize)

lemma oversize_buffer_sequential:
  assumes "int maxAlloc < partSize"
    and "fs filePath = Some fd" "CreateMultipartUpload svc bucket key = Inr uid"
  shows "MultipartUpload svc fs maxAlloc bucket key filePath partSize =
         (Panic MakeSliceLen, [CreateCall bucket key])"
  using assms by (simp add: MultipartUpload_def)

lemma oversize_scenario:
  "ConcurrentMultipartUpload (demo_svc 0) demo_fs [] runtime_maxAlloc ''b'' ''k'' ''empty''
     4611686018427387904 5 = (Panic MakeSliceLen, [CreateCall ''b'' ''k''])
   \<and> MultipartUpload (demo_svc 0) demo_fs runtime_maxAlloc ''b'' ''k'' ''empty''
     4611686018427387904 = (Panic MakeSliceLen, [CreateCall ''b'' ''k''])"
  by (simp add: ConcurrentMultipartUpload_def MultipartUpload_def launch_loop_oversize
        demo_fs_def demo_svc_def runtime_maxAlloc_def)

lemma collect_error: "collect rs acc = Inl e \<Longrightarrow> e \<noteq> MaxConcurrencyError"
  by (induction rs arbitrary: acc) (auto split: option.splits)

lemma not_rejected:
  assumes "maxConcurrency \<le> 8"
  shows "fst (ConcurrentMultipartUpload svc fs sched maxAlloc bucket key filePath partSize maxConcurrency)
           \<noteq> Failed MaxConcurrencyError"
  using assms
  by (auto simp: ConcurrentMultipartUpload_def Let_def dest: collect_error
        split: option.splits sum.splits launch_result.splits)

lemma create_called:
  assumes "maxConcurrency \<le> 8" "fs filePath = Some fd"
  shows "\<exists>rest. snd (ConcurrentMultipartUpload svc fs sched maxAlloc bucket key filePath partSize
                        maxConcurrency) = CreateCall bucket key # rest"
  using assms
  by (auto simp: ConcurrentMultipartUpload_def Let_def
        split: option.splits sum.splits launch_result.splits)

subsection \<open>The semaphore invariant\<close>

lemma filter_update_length:
  "i < length xs \<Longrightarrow>
   length (filter P (xs[i := y])) + (if P (xs ! i) then 1 else 0) =
   length (filter P xs) + (if P y then 1 else 0)"
proof (induction xs arbitrary: i)
  case Nil
  then show ?case by simp
next
  case (Cons x xs)
  show ?case
  proof (cases i)
    case 0
    then show ?thesis by simp
  next
    case (Suc j)
    with Cons.prems have "j < length xs" by simp
    from Cons.IH[OF this] Suc show ?thesis by simp
  qed
qed

lemma holding_update:
  assumes "i < length (goroutines s)"
  shows "length (filter holds_slot ((goroutines s)[i := p])) + (if holds_slot (goroutines s ! i) then 1 else 0) =
         holding s + (if holds_slot p then 1 else 0)"
  unfolding holding_def by (rule filter_update_length[OF assms])

lemma step_inv: "pool_inv m s \<Longrightarrow> pool_inv m (step m s a)"
proof (cases a)
  case (Acquire i)
  assume inv: "pool_inv m s"
  show ?thesis
  proof (cases "i < length (goroutines s) \<and> goroutines s ! i = AtAcquire \<and> int (semaphore s) < m")
    case True
    with holding_update[of i s InUploadPart]
    have "length (filter holds_slot ((goroutines s)[i := InUploadPart])) = holding s + 1"
      by (simp add: holds_slot_def)
    with True inv show ?thesis
      unfolding Acquire by (simp add: pool_inv_def holding_def)
  next
    case False
    with inv show ?thesis unfolding Acquire by auto
  qed
next
  case (Return i)
  assume inv: "pool_inv m s"
  show ?thesis
  proof (cases "i < length (goroutines s) \<and> goroutines s ! i = InUploadPart")
    case True
    with holding_update[of i s AtSend]
    have "length (filter holds_slot ((goroutines s)[i := AtSend])) = holding s"
      by (simp add: holds_slot_def)
    with True inv show ?thesis
      unfolding Return by (simp add: pool_inv_def holding_def)
  next
    case False
    with inv show ?thesis unfolding Return by auto
  qed
next
  case (Send i)
  assume inv: "pool_inv m s"
  show ?thesis
  proof (cases "i < length (goroutines s) \<and> goroutines s ! i = AtSend \<and> int (partCh s) < m")
    case True
    with holding_update[of i s AtRelease]
    have "length (filter holds_slot ((goroutines s)[i := AtRelease])) = holding s"
      by (simp add: holds_slot_def)
    with True inv show ?thesis
      unfolding Send by (simp add: pool_inv_def holding_def)
  next
    case False
    with inv show ?thesis unfolding Send by auto
  qed
next
  case (Release i)
  assume inv: "pool_inv m s"
  show ?thesis
  proof (cases "i < length (goroutines s) \<and> goroutines s ! i = AtRelease \<and> 0 < semaphore s")
    case True
    with holding_update[of i s Exited]
    have "length (filter holds_slot ((goroutines s)[i := Exited])) + 1 = holding s"
      by (simp add: holds_slot_def)
    with True inv show ?thesis
      unfolding Release by (simp add: pool_inv_def holding_def)
  next
    case False
    with inv show ?thesis unfolding Release by auto
  qed
next
  case Receive
  assume "pool_inv m s"
  then show ?thesis unfolding Receive by (simp add: pool_inv_def holding_def)
qed

lemma foldl_step_inv: "pool_inv m s \<Longrightarrow> pool_inv m (foldl (step m) s acts)"
  by (induction acts arbitrary: s) (simp_all add: step_inv)

lemma started_inv: "pool_inv m (started n)"
  by (simp add: pool_inv_def started_def holding_def holds_slot_def)

lemma run_pool_inv: "pool_inv m (run_pool m n acts)"
  unfolding run_pool_def by (rule foldl_step_inv[OF started_inv])

lemma in_flight_le_holding: "in_flight s \<le> holding s"
proof -
  have "length (filter (\<lambda>p. p = InUploadPart) xs) \<le> length (filter holds_slot xs)" for xs
    by (induction xs) (auto simp: holds_slot_def)
  then show ?thesis by (simp add: in_flight_def holding_def)
qed

lemma enters_upload_by_acquire:
  assumes "goroutines (step m s a) ! i = InUploadPart" "goroutines s ! i \<noteq> InUploadPart"
  shows "a = Acquire i \<and> int (semaphore s) < m \<and> semaphore (step m s a) = semaphore s + 1"
proof (cases a)
  case (Acquire j)
  show ?thesis
  proof (cases "j < length (goroutines s) \<and> goroutines s ! j = AtAcquire \<and> int (semaphore s) < m")
    case True
    have "j = i"
    proof (rule ccontr)
      assume "j \<noteq> i"
      with True assms(1) have "goroutines s ! i = InUploadPart"
        unfolding Acquire by simp
      with assms(2) show False by simp
    qed
    with True show ?thesis unfolding Acquire by simp
  next
    case False
    with assms show ?thesis unfolding Acquire by auto
  qed
next
  case (Return j)
  with assms show ?thesis
    by (cases "j = i") (auto split: if_splits)
next
  case (Send j)
  with assms show ?thesis
    by (cases "j = i") (auto split: if_splits)
next
  case (Release j)
  with assms show ?thesis
    by (cases "j = i") (auto split: if_splits)
next
  case Receive
  with assms show ?thesis by (auto split: if_splits)
qed

section \<open>The claims\<close>

text \<open>
  \<^bold>\<open>C1.\<close>  When the configuration is accepted, the file opens, the session is initiated
  and every part that the first loop started uploads successfully, then, whatever the
  order \<open>sched\<close> in which the results arrive, the function ends by calling
  \<open>CompleteMultipartUpload\<close> with a list of parts whose part numbers are strictly
  ascending and are exactly the part numbers of the started parts, one entry each, every
  entry carrying the tag that the upload of its part returned.
\<close>

theorem completion_manifest_sorted:
  assumes conc: "1 \<le> maxConcurrency" "maxConcurrency \<le> 8"
    and opened: "fs filePath = Some fd"
    and init: "CreateMultipartUpload svc bucket key = Inr uid"
    and launched: "launch_loop maxAlloc partSize fd 1 [] = Launched tasks"
    and ok: "\<forall>t \<in> set tasks. \<exists>tag. UploadPart svc bucket key uid (fst t) (snd t) = Inr tag"
  shows "\<exists>parts.
      snd (ConcurrentMultipartUpload svc fs sched maxAlloc bucket key filePath partSize
             maxConcurrency) =
        CreateCall bucket key # map (\<lambda>t. UploadPartTask uid (fst t) (snd t)) tasks @
        [CompleteCall uid parts]
      \<and> sorted_wrt (<) (map PartNumber parts)
      \<and> map PartNumber parts = map fst tasks
      \<and> map (\<lambda>p. Inr (ETag p)) parts =
          map (\<lambda>t. UploadPart svc bucket key uid (fst t) (snd t)) tasks"
proof -
  let ?parts = "map completed (map (upload_task svc bucket key uid) tasks)"
  have numbers: "map PartNumber ?parts = map fst tasks"
    by (rule map_completed_upload_task)
  have sorted: "sorted_wrt (<) (map PartNumber ?parts)"
    by (simp only: numbers launched_sorted[OF launched])
  have tags: "map (\<lambda>p. Inr (ETag p)) ?parts =
        map (\<lambda>t. UploadPart svc bucket key uid (fst t) (snd t)) tasks"
    using ok by (auto simp: completed_def upload_task_def)
  have "snd (ConcurrentMultipartUpload svc fs sched maxAlloc bucket key filePath partSize
               maxConcurrency) =
        CreateCall bucket key # map (\<lambda>t. UploadPartTask uid (fst t) (snd t)) tasks @
        [CompleteCall uid ?parts]"
    by (simp only: snd_conv
          concurrent_run_ok[where fs = fs and filePath = filePath, OF conc opened init launched ok])
  with sorted numbers tags show ?thesis
    by blast
qed

text \<open>
  The five-byte file in parts of two bytes, with the result of part 3 arriving first,
  then that of part 1, then that of part 2.
\<close>

theorem completion_manifest_sorted_witness:
  "\<exists>parts.
      snd (ConcurrentMultipartUpload (demo_svc 0) demo_fs [2, 0] runtime_maxAlloc
             ''b'' ''k'' ''five'' 2 2) =
        CreateCall ''b'' ''k'' #
        map (\<lambda>t. UploadPartTask (Some ''id'') (fst t) (snd t))
          [(1, [1, 2]), (2, [3, 4]), (3, [5])] @
        [CompleteCall (Some ''id'') parts]
      \<and> sorted_wrt (<) (map PartNumber parts)
      \<and> map PartNumber parts = map fst [(1, [1, 2]), (2, [3, 4]), (3, [5 :: byte])]
      \<and> map (\<lambda>p. Inr (ETag p)) parts =
          map (\<lambda>t. UploadPart (demo_svc 0) ''b'' ''k'' (Some ''id'') (fst t) (snd t))
            [(1, [1, 2]), (2, [3, 4]), (3, [5])]"
proof (rule completion_manifest_sorted[where fs = demo_fs and filePath = "''five''"])
  show "(1::int) \<le> 2" "(2::int) \<le> 8" by simp_all
  show "demo_fs ''five'' = Some (os_file [1, 2, 3, 4, 5])"
    by (simp add: demo_fs_def)
  show "CreateMultipartUpload (demo_svc 0) ''b'' ''k'' = Inr (Some ''id'')"
    by (simp add: demo_svc_def)
  show "launch_loop runtime_maxAlloc 2 (os_file [1, 2, 3, 4, 5]) 1 [] =
        Launched [(1, [1, 2]), (2, [3, 4]), (3, [5])]"
    by (rule demo_launch)
  show "\<forall>t \<in> set [(1, [1, 2]), (2, [3, 4]), (3, [5 :: byte])].
          \<exists>tag. UploadPart (demo_svc 0) ''b'' ''k'' (Some ''id'') (fst t) (snd t) = Inr tag"
    by (simp add: demo_svc_def)
qed

text \<open>
  \<^bold>\<open>C2.\<close>  The Go loop makes one part of what each \<open>Read\<close> returns, so the parts
  have the sizes of the formula only while one \<open>Read\<close> fills the buffer.  With a part
  size of 2 GiB and a file of 3 GiB, read through an \<^verbatim>\<open>os.File\<close>, the loop starts three
  parts and the first is 1 GiB long, where \<open>ceil(fileSize / partSize)\<close> is 2 and
  \<open>min(partSize, fileSize)\<close> is 2 GiB.  The Java loop has the parts of the formula for
  every positive part size (\<open>java_chunking_exact\<close>), and so has the Go loop for a part
  size that one \<open>Read\<close> fills (\<open>chunking_exact\<close>); the parts of the Go loop are
  in every case numbered from 1 and cover the file without gap or overlap
  (\<open>chunking_covers\<close>).
\<close>

theorem large_part_size_short_reads:
  "\<exists>tasks. launch_loop runtime_maxAlloc 2147483648 (os_file (replicate 3221225472 0)) 1 [] =
            Launched tasks
     \<and> length tasks = 3
     \<and> length (snd (tasks ! 0)) = 1073741824
     \<and> \<lceil>real (length (unread (os_file (replicate 3221225472 0)))) / real_of_int 2147483648\<rceil> = 2
     \<and> min (nat 2147483648) (length (unread (os_file (replicate 3221225472 0)))) = 2147483648"
proof -
  let ?fd = "os_file (replicate 3221225472 0)"
  let ?tasks = "slices 1 1073741824 (replicate 3221225472 (0 :: byte))"
  have nofault: "faults ?fd = None" by (simp add: os_file_def)
  have m: "min (nat 2147483648) (max_read ?fd) = 1073741824"
    by (simp add: os_file_def)
  have u: "unread ?fd = replicate 3221225472 0" by (simp add: os_file_def)
  have fits: "(2147483648 :: int) \<le> int runtime_maxAlloc" by (simp add: runtime_maxAlloc_def)
  have run: "launch_loop runtime_maxAlloc 2147483648 ?fd 1 [] = Launched ?tasks"
    using launch_loop_slices[where k = 1 and tasks = "[]", OF nofault _ fits]
    by (simp only: m u) simp
  have len: "length ?tasks = 3"
    by (simp only: length_slices length_replicate)
  have "0 < length ?tasks" by (simp only: len)
  then have "?tasks ! 0 = (1 + int 0, take 1073741824 (drop (0 * 1073741824) (replicate 3221225472 0)))"
    by (rule nth_slices)
  then have first: "length (snd (?tasks ! 0)) = 1073741824"
    by (simp only: snd_conv length_take length_drop length_replicate)
  have "nat \<lceil>real (3221225472::nat) / real (2147483648::nat)\<rceil> = (3221225472 + 2147483648 - 1) div 2147483648"
    by (rule ceil_count) simp
  then have c: "\<lceil>real (length (unread ?fd)) / real_of_int 2147483648\<rceil> = 2"
    by (simp add: u)
  have mn: "min (nat 2147483648) (length (unread ?fd)) = 2147483648"
    by (simp only: u length_replicate)
  from run len first c mn show ?thesis by blast
qed

text \<open>
  \<^bold>\<open>C3.\<close>  When the configuration is accepted, the file opens, the session is initiated
  and, of the parts that were started, the upload of part \<open>k\<close> fails while every other
  one succeeds, then, whatever the order in which the results arrive, the function
  returns the error "failed to upload part k with error: failed to upload part k: ...",
  which names \<open>k\<close> and carries the cause, and \<open>CompleteMultipartUpload\<close> is not
  called: the calls are the creation of the session and the started part uploads.
\<close>

theorem failed_part_fails_upload:
  assumes conc: "1 \<le> maxConcurrency" "maxConcurrency \<le> 8"
    and opened: "fs filePath = Some fd"
    and init: "CreateMultipartUpload svc bucket key = Inr uid"
    and launched: "launch_loop maxAlloc partSize fd 1 [] = Launched tasks"
    and bad: "(k, body) \<in> set tasks" "UploadPart svc bucket key uid k body = Inl err"
    and others: "\<forall>t \<in> set tasks. fst t \<noteq> k \<longrightarrow>
                   (\<exists>tag. UploadPart svc bucket key uid (fst t) (snd t) = Inr tag)"
  shows "ConcurrentMultipartUpload svc fs sched maxAlloc bucket key filePath partSize maxConcurrency =
           (Failed (PartResultError k (UploadPartError k err)),
            CreateCall bucket key # map (\<lambda>t. UploadPartTask uid (fst t) (snd t)) tasks)
         \<and> (\<forall>u parts. CompleteCall u parts \<notin>
               set (snd (ConcurrentMultipartUpload svc fs sched maxAlloc bucket key filePath partSize
                          maxConcurrency)))"
proof -
  let ?results = "map (upload_task svc bucket key uid) tasks"
  let ?r = "upload_task svc bucket key uid (k, body)"
  have dist: "distinct (map fst tasks)"
    using launched_sorted[OF launched] by (simp add: strict_sorted_iff)
  have r_in: "?r \<in> set (arrival sched ?results)"
    using bad(1) by simp
  have r_err: "Err ?r = Some (UploadPartError k err)"
    using bad(2) by (simp add: upload_task_def)
  have r_num: "PartResult.PartNumber ?r = k"
    using bad(2) by (simp add: upload_task_def)
  have only: "\<forall>r' \<in> set (arrival sched ?results). Err r' \<noteq> None \<longrightarrow> r' = ?r"
  proof (intro ballI impI)
    fix r'
    assume "r' \<in> set (arrival sched ?results)" and e: "Err r' \<noteq> None"
    then obtain t where t: "t \<in> set tasks" and r': "r' = upload_task svc bucket key uid t"
      by auto
    have "fst t = k"
    proof (rule ccontr)
      assume "fst t \<noteq> k"
      with others t obtain tag where "UploadPart svc bucket key uid (fst t) (snd t) = Inr tag"
        by blast
      then have "Err r' = None" by (simp add: r' upload_task_def)
      with e show False by simp
    qed
    with t have "(k, snd t) \<in> set tasks" by (metis prod.collapse)
    with dist bad(1) have "body = snd t" by (rule eq_key_imp_eq_value)
    with \<open>fst t = k\<close> have "t = (k, body)" by (simp add: prod_eq_iff)
    then show "r' = ?r" by (simp add: r')
  qed
  have "collect (arrival sched ?results) [] =
        Inl (PartResultError (PartResult.PartNumber ?r) (UploadPartError k err))"
    by (rule collect_fail[OF r_in r_err only])
  then have collected: "collect (arrival sched ?results) [] =
        Inl (PartResultError k (UploadPartError k err))"
    by (simp only: r_num)
  have run: "ConcurrentMultipartUpload svc fs sched maxAlloc bucket key filePath partSize maxConcurrency =
           (Failed (PartResultError k (UploadPartError k err)),
            CreateCall bucket key # map (\<lambda>t. UploadPartTask uid (fst t) (snd t)) tasks)"
    by (rule concurrent_run_failed[where fs = fs and filePath = filePath,
          OF conc opened init launched collected])
  have "\<forall>u parts. CompleteCall u parts \<notin>
          set (CreateCall bucket key # map (\<lambda>t. UploadPartTask uid (fst t) (snd t)) tasks)"
    by auto
  with run show ?thesis by simp
qed

text \<open>Part 2 of three fails; its result arrives last, after those of parts 3 and 1.\<close>

theorem failed_part_fails_upload_witness:
  "ConcurrentMultipartUpload (demo_svc 2) demo_fs [2, 0] runtime_maxAlloc ''b'' ''k'' ''five'' 2 2 =
           (Failed (PartResultError 2 (UploadPartError 2 ''timeout'')),
            CreateCall ''b'' ''k'' # map (\<lambda>t. UploadPartTask (Some ''id'') (fst t) (snd t))
               [(1, [1, 2]), (2, [3, 4]), (3, [5])])
         \<and> (\<forall>u parts. CompleteCall u parts \<notin>
               set (snd (ConcurrentMultipartUpload (demo_svc 2) demo_fs [2, 0] runtime_maxAlloc ''b'' ''k''
                          ''five'' 2 2)))"
proof (rule failed_part_fails_upload[where fs = demo_fs and filePath = "''five''"
        and body = "[3, 4]"])
  show "(1::int) \<le> 2" "(2::int) \<le> 8" by simp_all
  show "demo_fs ''five'' = Some (os_file [1, 2, 3, 4, 5])"
    by (simp add: demo_fs_def)
  show "CreateMultipartUpload (demo_svc 2) ''b'' ''k'' = Inr (Some ''id'')"
    by (simp add: demo_svc_def)
  show "launch_loop runtime_maxAlloc 2 (os_file [1, 2, 3, 4, 5]) 1 [] =
        Launched [(1, [1, 2]), (2, [3, 4]), (3, [5])]"
    by (rule demo_launch)
  show "(2, [3, 4]) \<in> set [(1, [1, 2]), (2, [3, 4]), (3, [5 :: byte])]" by simp
  show "UploadPart (demo_svc 2) ''b'' ''k'' (Some ''id'') 2 [3, 4] = Inl ''timeout''"
    by (simp add: demo_svc_def)
  show "\<forall>t \<in> set [(1, [1, 2]), (2, [3, 4]), (3, [5 :: byte])]. fst t \<noteq> 2 \<longrightarrow>
          (\<exists>tag. UploadPart (demo_svc 2) ''b'' ''k'' (Some ''id'') (fst t) (snd t) = Inr tag)"
    by (simp add: demo_svc_def)
qed

text \<open>
  \<^bold>\<open>C4.\<close>  With \<open>maxConcurrency > 8\<close> the function returns the error of its first
  statement and has done nothing before: no file is opened, no session is created, no
  part upload is started and nothing is completed (the list of calls is empty).
\<close>

theorem max_concurrency_above_8_rejected:
  assumes "8 < maxConcurrency"
  shows "ConcurrentMultipartUpload svc fs sched maxAlloc bucket key filePath partSize maxConcurrency =
         (Failed MaxConcurrencyError, [])"
  using assms by (simp add: ConcurrentMultipartUpload_def)

theorem max_concurrency_above_8_rejected_witness:
  "ConcurrentMultipartUpload (demo_svc 0) demo_fs [] runtime_maxAlloc ''b'' ''k'' ''five'' 2 9 =
   (Failed MaxConcurrencyError, [])"
  by (rule max_concurrency_above_8_rejected) simp

text \<open>
  \<^bold>\<open>C5\<close>, as the code has it.  The only check of \<open>maxConcurrency\<close> is the upper
  bound: the function fails with the error of the check if and only if
  \<open>maxConcurrency > 8\<close>.  For every other value, zero and negative ones included, it
  goes on, and once the file is open it calls \<open>CreateMultipartUpload\<close>.
\<close>

theorem only_upper_bound_validated:
  "(fst (ConcurrentMultipartUpload svc fs sched maxAlloc bucket key filePath partSize maxConcurrency) =
      Failed MaxConcurrencyError \<longleftrightarrow> 8 < maxConcurrency)
   \<and> (maxConcurrency \<le> 8 \<and> fs filePath = Some fd \<longrightarrow>
        (\<exists>rest. snd (ConcurrentMultipartUpload svc fs sched maxAlloc bucket key filePath partSize
                        maxConcurrency) = CreateCall bucket key # rest))"
proof (intro conjI iffI impI)
  assume rejected: "fst (ConcurrentMultipartUpload svc fs sched maxAlloc bucket key filePath partSize
                maxConcurrency) = Failed MaxConcurrencyError"
  show "8 < maxConcurrency"
  proof (rule ccontr)
    assume "\<not> 8 < maxConcurrency"
    then have "maxConcurrency \<le> 8" by simp
    from not_rejected[OF this] rejected show False by blast
  qed
next
  assume "8 < maxConcurrency"
  then show "fst (ConcurrentMultipartUpload svc fs sched maxAlloc bucket key filePath partSize
                maxConcurrency) = Failed MaxConcurrencyError"
    by (simp add: ConcurrentMultipartUpload_def)
next
  assume "maxConcurrency \<le> 8 \<and> fs filePath = Some fd"
  then show "\<exists>rest. snd (ConcurrentMultipartUpload svc fs sched maxAlloc bucket key filePath partSize
                        maxConcurrency) = CreateCall bucket key # rest"
    by (intro create_called[where fd = fd]) simp_all
qed

theorem only_upper_bound_validated_witness:
  "fst (ConcurrentMultipartUpload (demo_svc 0) demo_fs [] runtime_maxAlloc ''b'' ''k'' ''five'' 2 0)
     \<noteq> Failed MaxConcurrencyError
   \<and> (\<exists>rest. snd (ConcurrentMultipartUpload (demo_svc 0) demo_fs [] runtime_maxAlloc ''b'' ''k'' ''five'' 2 0) =
         CreateCall ''b'' ''k'' # rest)"
proof -
  have "(0::int) \<le> 8 \<and> demo_fs ''five'' = Some (os_file [1, 2, 3, 4, 5])"
    by (simp add: demo_fs_def)
  with only_upper_bound_validated[of "demo_svc 0" demo_fs "[]" runtime_maxAlloc "''b''" "''k''"
      "''five''" 2 0 "os_file [1, 2, 3, 4, 5]"]
  show ?thesis by simp
qed

text \<open>
  \<^bold>\<open>C5\<close>, as it is stated, fails: a \<open>maxConcurrency\<close> below 1 is not rejected.
  With 0 and an empty file the upload is completed; with \<open>-1\<close> the session is created
  and then \<^verbatim>\<open>make(chan PartResult, maxConcurrency)\<close> panics.
\<close>

theorem zero_concurrency_not_rejected:
  "ConcurrentMultipartUpload (demo_svc 0) demo_fs [] runtime_maxAlloc ''b'' ''k'' ''empty'' 8388608 0 =
     (Ok [], [CreateCall ''b'' ''k'', CompleteCall (Some ''id'') []])
   \<and> ConcurrentMultipartUpload (demo_svc 0) demo_fs [] runtime_maxAlloc ''b'' ''k'' ''five'' 2 (- 1) =
     (Panic MakeChanSize, [CreateCall ''b'' ''k''])"
  by (simp add: ConcurrentMultipartUpload_def demo_fs_def demo_svc_def os_file_def
        launch_loop.simps Read_def runtime_maxAlloc_def)

text \<open>
  \<^bold>\<open>C6\<close>, as the code has it.  The part size is not checked.  With
  \<open>partSize \<le> 0\<close> (and \<open>maxConcurrency\<close> passing its check) the function never
  returns the configuration error and starts no part upload; with \<open>partSize = 0\<close>,
  once the session is created, it calls \<open>CompleteMultipartUpload\<close> with the empty
  list of parts and returns what that call returns.
\<close>

theorem nonpositive_part_size_no_parts:
  assumes "partSize \<le> 0" and "maxConcurrency \<le> 8"
  shows "fst (ConcurrentMultipartUpload svc fs sched maxAlloc bucket key filePath partSize maxConcurrency)
           \<noteq> Failed MaxConcurrencyError
     \<and> (\<forall>u n body. UploadPartTask u n body \<notin>
          set (snd (ConcurrentMultipartUpload svc fs sched maxAlloc bucket key filePath partSize
                     maxConcurrency)))
     \<and> (partSize = 0 \<and> 0 \<le> maxConcurrency \<and> fs filePath = Some fd \<and>
        CreateMultipartUpload svc bucket key = Inr uid \<longrightarrow>
          ConcurrentMultipartUpload svc fs sched maxAlloc bucket key filePath partSize maxConcurrency =
          (case CompleteMultipartUpload svc bucket key uid [] of
             Inl err \<Rightarrow> Failed (CompleteError err) | Inr out \<Rightarrow> Ok out,
           [CreateCall bucket key, CompleteCall uid []]))"
proof (intro conjI allI impI)
  show "fst (ConcurrentMultipartUpload svc fs sched maxAlloc bucket key filePath partSize maxConcurrency)
           \<noteq> Failed MaxConcurrencyError"
    using assms(2) by (rule not_rejected)
next
  fix u n body
  show "UploadPartTask u n body \<notin>
          set (snd (ConcurrentMultipartUpload svc fs sched maxAlloc bucket key filePath partSize
                     maxConcurrency))"
    using assms(1)
    by (auto simp: ConcurrentMultipartUpload_def launch_loop_nonpositive Let_def
          split: option.splits sum.splits)
next
  assume "partSize = 0 \<and> 0 \<le> maxConcurrency \<and> fs filePath = Some fd \<and>
        CreateMultipartUpload svc bucket key = Inr uid"
  then show "ConcurrentMultipartUpload svc fs sched maxAlloc bucket key filePath partSize maxConcurrency =
          (case CompleteMultipartUpload svc bucket key uid [] of
             Inl err \<Rightarrow> Failed (CompleteError err) | Inr out \<Rightarrow> Ok out,
           [CreateCall bucket key, CompleteCall uid []])"
    using assms(2)
    by (simp add: ConcurrentMultipartUpload_def launch_loop_nonpositive)
qed


theorem nonpositive_part_size_no_parts_witness:
  "fst (ConcurrentMultipartUpload (demo_svc 0) demo_fs [] runtime_maxAlloc ''b'' ''k'' ''five'' 0 5)
     \<noteq> Failed MaxConcurrencyError
   \<and> (\<forall>u n body. UploadPartTask u n body \<notin>
        set (snd (ConcurrentMultipartUpload (demo_svc 0) demo_fs [] runtime_maxAlloc ''b'' ''k'' ''five'' 0 5)))
   \<and> ConcurrentMultipartUpload (demo_svc 0) demo_fs [] runtime_maxAlloc ''b'' ''k'' ''five'' 0 5 =
       (case CompleteMultipartUpload (demo_svc 0) ''b'' ''k'' (Some ''id'') [] of
          Inl err \<Rightarrow> Failed (CompleteError err) | Inr out \<Rightarrow> Ok out,
        [CreateCall ''b'' ''k'', CompleteCall (Some ''id'') []])"
proof -
  have h: "(0::int) \<le> 0" "(5::int) \<le> 8" by simp_all
  have "(0::int) = 0 \<and> (0::int) \<le> 5 \<and> demo_fs ''five'' = Some (os_file [1, 2, 3, 4, 5]) \<and>
        CreateMultipartUpload (demo_svc 0) ''b'' ''k'' = Inr (Some ''id'')"
    by (simp add: demo_fs_def demo_svc_def)
  with nonpositive_part_size_no_parts[OF h, of "demo_svc 0" demo_fs "[]" runtime_maxAlloc
      "''b''" "''k''" "''five''" "os_file [1, 2, 3, 4, 5]" "Some ''id''"]
  show ?thesis by blast
qed

text \<open>
  \<^bold>\<open>C6\<close>, as it is stated, fails: a part size of 0 is not rejected.  The first
  \<open>Read\<close> gets an empty buffer and returns zero bytes, the loop ends, and the upload
  of the five-byte file is completed with no part.
\<close>

theorem zero_part_size_not_rejected:
  "ConcurrentMultipartUpload (demo_svc 0) demo_fs [] runtime_maxAlloc ''b'' ''k'' ''five'' 0 5 =
     (Ok [], [CreateCall ''b'' ''k'', CompleteCall (Some ''id'') []])"
  by (simp add: ConcurrentMultipartUpload_def demo_fs_def demo_svc_def os_file_def
        launch_loop.simps Read_def runtime_maxAlloc_def)

text \<open>
  \<^bold>\<open>C7.\<close>  In every state that the started goroutines reach under any interleaving of
  their steps, the number of goroutines inside \<^verbatim>\<open>svc.UploadPart\<close> is at most
  \<open>maxConcurrency\<close>.  A goroutine gets inside \<^verbatim>\<open>svc.UploadPart\<close> by no step but its
  own send to the semaphore, which is possible only while the semaphore holds fewer than
  \<open>maxConcurrency\<close> values and which adds one; while the semaphore is full, the send
  of a further goroutine leaves the state as it is.
\<close>

theorem in_flight_bounded:
  assumes "0 \<le> maxConcurrency"
  shows "int (in_flight (run_pool maxConcurrency n acts)) \<le> maxConcurrency
     \<and> (goroutines (step maxConcurrency s a) ! i = InUploadPart \<and>
        goroutines s ! i \<noteq> InUploadPart \<longrightarrow>
          a = Acquire i \<and> int (semaphore s) < maxConcurrency \<and>
          semaphore (step maxConcurrency s a) = semaphore s + 1)
     \<and> (maxConcurrency \<le> int (semaphore s) \<longrightarrow> step maxConcurrency s (Acquire i) = s)"
proof (intro conjI impI)
  have "pool_inv maxConcurrency (run_pool maxConcurrency n acts)"
    by (rule run_pool_inv)
  then have "int (holding (run_pool maxConcurrency n acts)) \<le> maxConcurrency"
    using assms by (simp add: pool_inv_def)
  with in_flight_le_holding[of "run_pool maxConcurrency n acts"]
  show "int (in_flight (run_pool maxConcurrency n acts)) \<le> maxConcurrency"
    by simp
next
  assume "goroutines (step maxConcurrency s a) ! i = InUploadPart \<and>
        goroutines s ! i \<noteq> InUploadPart"
  then have "a = Acquire i \<and> int (semaphore s) < maxConcurrency \<and>
      semaphore (step maxConcurrency s a) = semaphore s + 1"
    by (intro enters_upload_by_acquire) blast+
  then show "a = Acquire i" "int (semaphore s) < maxConcurrency"
    "semaphore (step maxConcurrency s a) = semaphore s + 1"
    by blast+
next
  assume "maxConcurrency \<le> int (semaphore s)"
  then show "step maxConcurrency s (Acquire i) = s" by simp
qed

text \<open>
  Three goroutines and two slots: the third gets its slot only after the first has
  released one, and while both slots are taken its send to the semaphore blocks.
\<close>

theorem in_flight_bounded_witness:
  "int (in_flight (run_pool 2 3 [Acquire 0, Acquire 1, Acquire 2, Return 0, Send 0, Release 0,
                                  Acquire 2])) \<le> 2
   \<and> goroutines (run_pool 2 3 [Acquire 0, Acquire 1, Acquire 2]) =
       [InUploadPart, InUploadPart, AtAcquire]
   \<and> step 2 (run_pool 2 3 [Acquire 0, Acquire 1]) (Acquire 2) = run_pool 2 3 [Acquire 0, Acquire 1]"
proof -
  have h: "(0::int) \<le> 2" by simp
  have full: "(2::int) \<le> int (semaphore (run_pool 2 3 [Acquire 0, Acquire 1]))"
    by (simp add: run_pool_def started_def)
  have shape: "goroutines (run_pool 2 3 [Acquire 0, Acquire 1, Acquire 2]) =
       [InUploadPart, InUploadPart, AtAcquire]"
    by (simp add: run_pool_def started_def numeral_3_eq_3)
  from in_flight_bounded[OF h, of 3 "[Acquire 0, Acquire 1, Acquire 2, Return 0, Send 0, Release 0,
                                  Acquire 2]" "run_pool 2 3 [Acquire 0, Acquire 1]" "Acquire 2" 2]
    full shape
  show ?thesis by blast
qed

text \<open>
  \<^bold>\<open>C8.\<close>  When \<open>CreateMultipartUpload\<close> returns an error, the function returns that
  error, wrapped as "failed to initiate multipart upload", and the only call made to the
  store is the failed one: no part upload is started and nothing is completed.
\<close>

theorem initiate_failure_aborts:
  assumes "maxConcurrency \<le> 8"
    and "fs filePath = Some fd"
    and "CreateMultipartUpload svc bucket key = Inl err"
  shows "ConcurrentMultipartUpload svc fs sched maxAlloc bucket key filePath partSize maxConcurrency =
         (Failed (InitiateError err), [CreateCall bucket key])"
  using assms by (simp add: ConcurrentMultipartUpload_def)

theorem initiate_failure_aborts_witness:
  "ConcurrentMultipartUpload refusing_svc demo_fs [] runtime_maxAlloc ''b'' ''k'' ''five'' 2 5 =
   (Failed (InitiateError ''denied''), [CreateCall ''b'' ''k''])"
proof (rule initiate_failure_aborts[where fs = demo_fs and filePath = "''five''"])
  show "(5::int) \<le> 8" by simp
  show "demo_fs ''five'' = Some (os_file [1, 2, 3, 4, 5])"
    by (simp add: demo_fs_def)
  show "CreateMultipartUpload refusing_svc ''b'' ''k'' = Inl ''denied''"
    by (simp add: refusing_svc_def)
qed

text \<open>
  \<^bold>\<open>C9.\<close>  For an empty file that can be read, with \<open>1 \<le> maxConcurrency \<le> 8\<close> and a
  positive part size for which the buffer can be allocated (\<open>partSize \<le> maxAlloc\<close>),
  the function creates the session, starts no part upload, calls
  \<open>CompleteMultipartUpload\<close> with the empty list of parts and returns what that call
  returns.  The bound is needed: the buffer is allocated before the file is read, and
  with a part size beyond \<open>maxAlloc\<close> the function is ended in \<^verbatim>\<open>make\<close> after
  creating the session, for an empty file too (\<open>oversize_buffer_concurrent\<close>).
\<close>

theorem empty_file_completes:
  assumes conc: "1 \<le> maxConcurrency" "maxConcurrency \<le> 8"
    and size: "0 < partSize" "partSize \<le> int maxAlloc"
    and opened: "fs filePath = Some fd"
    and empty: "unread fd = []" "faults fd = None"
    and init: "CreateMultipartUpload svc bucket key = Inr uid"
  shows "ConcurrentMultipartUpload svc fs sched maxAlloc bucket key filePath partSize maxConcurrency =
         (case CompleteMultipartUpload svc bucket key uid [] of
            Inl err \<Rightarrow> Failed (CompleteError err) | Inr out \<Rightarrow> Ok out,
          [CreateCall bucket key, CompleteCall uid []])"
proof -
  have launched: "launch_loop maxAlloc partSize fd 1 [] = Launched []"
    using size empty by (intro launch_loop_stop) simp_all
  have ok: "\<forall>t \<in> set ([] :: task list).
      \<exists>tag. UploadPart svc bucket key uid (fst t) (snd t) = Inr tag"
    by simp
  show ?thesis
    using concurrent_run_ok[where fs = fs and filePath = filePath,
        OF conc opened init launched ok, of sched]
    by simp
qed

theorem empty_file_completes_witness:
  "ConcurrentMultipartUpload (demo_svc 0) demo_fs [] runtime_maxAlloc ''b'' ''k'' ''empty'' 8388608 5 =
   (Ok [], [CreateCall ''b'' ''k'', CompleteCall (Some ''id'') []])"
proof -
  have "ConcurrentMultipartUpload (demo_svc 0) demo_fs [] runtime_maxAlloc ''b'' ''k'' ''empty'' 8388608 5 =
         (case CompleteMultipartUpload (demo_svc 0) ''b'' ''k'' (Some ''id'') [] of
            Inl err \<Rightarrow> Failed (CompleteError err) | Inr out \<Rightarrow> Ok out,
          [CreateCall ''b'' ''k'', CompleteCall (Some ''id'') []])"
  proof (rule empty_file_completes[where fs = demo_fs and filePath = "''empty''"])
    show "(1::int) \<le> 5" "(5::int) \<le> 8" "(0::int) < 8388608" by simp_all
    show "(8388608::int) \<le> int runtime_maxAlloc"
      by (simp add: runtime_maxAlloc_def)
    show "demo_fs ''empty'' = Some (os_file [])"
      by (simp add: demo_fs_def)
    show "unread (os_file []) = []" "faults (os_file []) = None"
      by (simp_all add: os_file_def)
    show "CreateMultipartUpload (demo_svc 0) ''b'' ''k'' = Inr (Some ''id'')"
      by (simp add: demo_svc_def)
  qed
  then show ?thesis by (simp add: demo_svc_def)
qed

text \<open>
  \<^bold>\<open>C10.\<close>  For the same store, file and part size, when the session is initiated and
  every part the file is cut into uploads successfully (the store answering an upload
  by a tag that depends on the request alone), \<open>MultipartUpload\<close> and
  \<open>ConcurrentMultipartUpload\<close>, under any order of arrival and any accepted
  \<open>maxConcurrency\<close>, upload the same numbered byte ranges, send the same completion
  request (the same parts with the same tags in the same ascending order) and return
  the same result.
\<close>

theorem sequential_and_concurrent_agree:
  assumes conc: "1 \<le> maxConcurrency" "maxConcurrency \<le> 8"
    and opened: "fs filePath = Some fd"
    and init: "CreateMultipartUpload svc bucket key = Inr uid"
    and launched: "launch_loop maxAlloc partSize fd 1 [] = Launched tasks"
    and ok: "\<forall>t \<in> set tasks. \<exists>tag. UploadPart svc bucket key uid (fst t) (snd t) = Inr tag"
  shows "\<exists>parts.
      snd (MultipartUpload svc fs maxAlloc bucket key filePath partSize) =
        CreateCall bucket key # map (\<lambda>t. UploadPartCall uid (fst t) (snd t)) tasks @
        [CompleteCall uid parts]
    \<and> snd (ConcurrentMultipartUpload svc fs sched maxAlloc bucket key filePath partSize maxConcurrency) =
        CreateCall bucket key # map (\<lambda>t. UploadPartTask uid (fst t) (snd t)) tasks @
        [CompleteCall uid parts]
    \<and> fst (MultipartUpload svc fs maxAlloc bucket key filePath partSize) =
      fst (ConcurrentMultipartUpload svc fs sched maxAlloc bucket key filePath partSize maxConcurrency)
    \<and> map PartNumber parts = map fst tasks
    \<and> sorted_wrt (<) (map PartNumber parts)
    \<and> map (\<lambda>p. Inr (ETag p)) parts =
        map (\<lambda>t. UploadPart svc bucket key uid (fst t) (snd t)) tasks"
proof -
  let ?parts = "map completed (map (upload_task svc bucket key uid) tasks)"
  note seq = sequential_run_ok[where fs = fs and filePath = filePath,
      OF opened init launched ok]
  note con = concurrent_run_ok[where fs = fs and filePath = filePath,
      OF conc opened init launched ok, of sched]
  have numbers: "map PartNumber ?parts = map fst tasks"
    by (rule map_completed_upload_task)
  have sorted: "sorted_wrt (<) (map PartNumber ?parts)"
    by (simp only: numbers launched_sorted[OF launched])
  have tags: "map (\<lambda>p. Inr (ETag p)) ?parts =
        map (\<lambda>t. UploadPart svc bucket key uid (fst t) (snd t)) tasks"
    using ok by (auto simp: completed_def upload_task_def)
  have "snd (MultipartUpload svc fs maxAlloc bucket key filePath partSize) =
        CreateCall bucket key # map (\<lambda>t. UploadPartCall uid (fst t) (snd t)) tasks @
        [CompleteCall uid ?parts]"
    by (simp only: seq snd_conv)
  moreover have
    "snd (ConcurrentMultipartUpload svc fs sched maxAlloc bucket key filePath partSize maxConcurrency) =
        CreateCall bucket key # map (\<lambda>t. UploadPartTask uid (fst t) (snd t)) tasks @
        [CompleteCall uid ?parts]"
    by (simp only: con snd_conv)
  moreover have "fst (MultipartUpload svc fs maxAlloc bucket key filePath partSize) =
      fst (ConcurrentMultipartUpload svc fs sched maxAlloc bucket key filePath partSize maxConcurrency)"
    by (simp only: seq con fst_conv)
  ultimately show ?thesis
    using numbers sorted tags by blast
qed

theorem sequential_and_concurrent_agree_witness:
  "\<exists>parts.
      snd (MultipartUpload (demo_svc 0) demo_fs runtime_maxAlloc ''b'' ''k'' ''five'' 2) =
        CreateCall ''b'' ''k'' #
        map (\<lambda>t. UploadPartCall (Some ''id'') (fst t) (snd t))
          [(1, [1, 2]), (2, [3, 4]), (3, [5])] @
        [CompleteCall (Some ''id'') parts]
    \<and> snd (ConcurrentMultipartUpload (demo_svc 0) demo_fs [1, 1] runtime_maxAlloc ''b'' ''k'' ''five'' 2 8) =
        CreateCall ''b'' ''k'' #
        map (\<lambda>t. UploadPartTask (Some ''id'') (fst t) (snd t))
          [(1, [1, 2]), (2, [3, 4]), (3, [5])] @
        [CompleteCall (Some ''id'') parts]
    \<and> fst (MultipartUpload (demo_svc 0) demo_fs runtime_maxAlloc ''b'' ''k'' ''five'' 2) =
      fst (ConcurrentMultipartUpload (demo_svc 0) demo_fs [1, 1] runtime_maxAlloc ''b'' ''k'' ''five'' 2 8)
    \<and> map PartNumber parts = map fst [(1, [1, 2]), (2, [3, 4]), (3, [5 :: byte])]
    \<and> sorted_wrt (<) (map PartNumber parts)
    \<and> map (\<lambda>p. Inr (ETag p)) parts =
        map (\<lambda>t. UploadPart (demo_svc 0) ''b'' ''k'' (Some ''id'') (fst t) (snd t))
          [(1, [1, 2]), (2, [3, 4]), (3, [5])]"
proof (rule sequential_and_concurrent_agree[where fs = demo_fs and filePath = "''five''"])
  show "(1::int) \<le> 8" "(8::int) \<le> 8" by simp_all
  show "demo_fs ''five'' = Some (os_file [1, 2, 3, 4, 5])"
    by (simp add: demo_fs_def)
  show "CreateMultipartUpload (demo_svc 0) ''b'' ''k'' = Inr (Some ''id'')"
    by (simp add: demo_svc_def)
  show "launch_loop runtime_maxAlloc 2 (os_file [1, 2, 3, 4, 5]) 1 [] =
        Launched [(1, [1, 2]), (2, [3, 4]), (3, [5])]"
    by (rule demo_launch)
  show "\<forall>t \<in> set [(1, [1, 2]), (2, [3, 4]), (3, [5 :: byte])].
          \<exists>tag. UploadPart (demo_svc 0) ''b'' ''k'' (Some ''id'') (fst t) (snd t) = Inr tag"
    by (simp add: demo_svc_def)
qed

end
